theory Spec2Isabelle
  imports Main "HOL-Library.AList"
begin

chapter \<open>The model\<close>

section \<open>Exceptions and outcomes\<close>

text \<open>
  A Python call either returns a value or raises. The exceptions that the modelled code
  can raise are \<open>KeyError\<close> (a missing dictionary key, \<open>del d[k]\<close>, \<open>popitem\<close> on an
  empty \<open>OrderedDict\<close>), \<open>IndexError\<close> (a list index out of range), \<open>ValueError\<close>
  (\<open>list.remove\<close> of an absent element, the conversion of a too long integer to a string)
  and whatever a collaborator raises: \<open>Failure\<close> with its message stands for an instance
  of \<open>Exception\<close>, and \<open>SystemExit\<close> for the exceptions outside that class (\<open>SystemExit\<close>,
  \<open>KeyboardInterrupt\<close>), which \<open>except Exception\<close> does not catch.
  A method that mutates \<open>self\<close> returns its outcome together with the object after the
  call, also when it raises: the mutations done before the \<open>raise\<close> stay.
\<close>

datatype error = KeyError | IndexError | ValueError | Failure string | SystemExit

fun is_Exception :: "error \<Rightarrow> bool" where
  "is_Exception SystemExit = False"
| "is_Exception e = True"

section \<open>Eviction policies\<close>

subsection \<open>\<open>LRUPolicy\<close> (implementations/lru_policy.py)\<close>

record 'k LRUPolicy =
  order :: "'k list"

definition LRUPolicy_init :: "'k LRUPolicy" where
  "LRUPolicy_init = \<lparr>order = []\<rparr>"

text \<open>\<open>list.remove\<close> deletes the first occurrence, which is \<open>remove1\<close>.\<close>

definition LRU_on_access :: "'k \<Rightarrow> 'k LRUPolicy \<Rightarrow> 'k LRUPolicy" where
  "LRU_on_access key p =
     p\<lparr>order := (if key \<in> set (order p) then remove1 key (order p) else order p) @ [key]\<rparr>"

definition LRU_evict :: "'k LRUPolicy \<Rightarrow> 'k option \<times> 'k LRUPolicy" where
  "LRU_evict p =
     (case order p of
        [] \<Rightarrow> (None, p)
      | k # rest \<Rightarrow> (Some k, p\<lparr>order := rest\<rparr>))"

subsection \<open>\<open>LFUPolicy\<close> (implementations/lfu_policy.py)\<close>

text \<open>
  An \<open>OrderedDict[K, None]\<close> is the list of its keys in insertion order.
  \<open>od[key] = None\<close> appends a new key and leaves the place of a present one;
  \<open>del od[key]\<close> raises \<open>KeyError\<close> for an absent key; \<open>popitem(last=False)\<close> takes the
  first key and raises \<open>KeyError\<close> on an empty dictionary.
\<close>

type_synonym 'k ordered_dict = "'k list"

definition od_setitem :: "'k \<Rightarrow> 'k ordered_dict \<Rightarrow> 'k ordered_dict" where
  "od_setitem key od = (if key \<in> set od then od else od @ [key])"

record 'k LFUPolicy =
  key_freq :: "'k \<rightharpoonup> int"
  freq_keys :: "int \<rightharpoonup> 'k ordered_dict"
  min_freq :: int

definition LFUPolicy_init :: "'k LFUPolicy" where
  "LFUPolicy_init = \<lparr>key_freq = Map.empty, freq_keys = Map.empty, min_freq = 0\<rparr>"

text \<open>
  \<open>freq_keys\<close> is a \<open>defaultdict(OrderedDict)\<close>: reading a missing frequency stores an
  empty bucket under it and returns that bucket.
\<close>

definition defaultdict_getitem ::
  "(int \<rightharpoonup> 'k ordered_dict) \<Rightarrow> int \<Rightarrow> 'k ordered_dict \<times> (int \<rightharpoonup> 'k ordered_dict)" where
  "defaultdict_getitem fk f =
     (case fk f of None \<Rightarrow> ([], fk(f \<mapsto> [])) | Some bucket \<Rightarrow> (bucket, fk))"

text \<open>Lines 41 and 42 of \<open>on_access\<close>, shared by both branches.\<close>

definition LFU_set_freq :: "'k \<Rightarrow> int \<Rightarrow> 'k LFUPolicy \<Rightarrow> 'k LFUPolicy" where
  "LFU_set_freq key new_freq p =
     (let (bucket, fk) = defaultdict_getitem (freq_keys p) new_freq
      in p\<lparr>key_freq := (key_freq p)(key \<mapsto> new_freq),
            freq_keys := fk(new_freq \<mapsto> od_setitem key bucket)\<rparr>)"

definition LFU_on_access :: "'k \<Rightarrow> 'k LFUPolicy \<Rightarrow> (error + unit) \<times> 'k LFUPolicy" where
  "LFU_on_access key p =
     (case key_freq p key of
        Some old_freq \<Rightarrow>
          (let (bucket, fk) = defaultdict_getitem (freq_keys p) old_freq
           in if key \<notin> set bucket then (Inl KeyError, p\<lparr>freq_keys := fk\<rparr>)
              else
                let bucket' = remove1 key bucket;
                    p1 = (if bucket' = []
                          then p\<lparr>freq_keys := fk(old_freq := None),
                                 min_freq := (if min_freq p = old_freq then min_freq p + 1
                                              else min_freq p)\<rparr>
                          else p\<lparr>freq_keys := fk(old_freq \<mapsto> bucket')\<rparr>)
                in (Inr (), LFU_set_freq key (old_freq + 1) p1))
      | None \<Rightarrow> (Inr (), LFU_set_freq key 1 (p\<lparr>min_freq := 1\<rparr>)))"

definition LFU_evict :: "'k LFUPolicy \<Rightarrow> (error + 'k option) \<times> 'k LFUPolicy" where
  "LFU_evict p =
     (if dom (key_freq p) = {} then (Inr None, p)
      else
        let (victim_candidates, fk) = defaultdict_getitem (freq_keys p) (min_freq p)
        in case victim_candidates of
             [] \<Rightarrow> (Inl KeyError, p\<lparr>freq_keys := fk\<rparr>)
           | victim_key # rest \<Rightarrow>
               let fk' = (if rest = [] then fk(min_freq p := None)
                          else fk(min_freq p \<mapsto> rest))
               in if victim_key \<notin> dom (key_freq p)
                  then (Inl KeyError, p\<lparr>freq_keys := fk'\<rparr>)
                  else (Inr (Some victim_key),
                        p\<lparr>freq_keys := fk', key_freq := (key_freq p)(victim_key := None)\<rparr>))"

subsection \<open>Runs of policy calls\<close>

datatype 'k policy_call = OnAccess 'k | Evict

fun LRU_call :: "'k policy_call \<Rightarrow> 'k LRUPolicy \<Rightarrow> 'k LRUPolicy" where
  "LRU_call (OnAccess key) p = LRU_on_access key p"
| "LRU_call Evict p = snd (LRU_evict p)"

fun LRU_run :: "'k policy_call list \<Rightarrow> 'k LRUPolicy \<Rightarrow> 'k LRUPolicy" where
  "LRU_run [] p = p"
| "LRU_run (c # cs) p = LRU_run cs (LRU_call c p)"

text \<open>
  Runs of the LFU policy in which every call returns normally: a call that raises ends
  the run without a state. \<open>buckets_nonempty\<close> says that no bucket present in
  \<open>freq_keys\<close> is empty.
\<close>

fun LFU_call :: "'k policy_call \<Rightarrow> 'k LFUPolicy \<Rightarrow> 'k LFUPolicy option" where
  "LFU_call (OnAccess key) p =
     (case LFU_on_access key p of (Inr _, p') \<Rightarrow> Some p' | (Inl e, p') \<Rightarrow> None)"
| "LFU_call Evict p =
     (case LFU_evict p of (Inr _, p') \<Rightarrow> Some p' | (Inl e, p') \<Rightarrow> None)"

fun LFU_run :: "'k policy_call list \<Rightarrow> 'k LFUPolicy \<Rightarrow> 'k LFUPolicy option" where
  "LFU_run [] p = Some p"
| "LFU_run (c # cs) p = (case LFU_call c p of None \<Rightarrow> None | Some p' \<Rightarrow> LFU_run cs p')"

definition buckets_nonempty :: "'k LFUPolicy \<Rightarrow> bool" where
  "buckets_nonempty p \<longleftrightarrow> (\<forall>f bucket. freq_keys p f = Some bucket \<longrightarrow> bucket \<noteq> [])"

subsection \<open>Invariants of \<open>LFUPolicy\<close>\<close>

text \<open>
  \<open>LFU_consistent\<close>: the two dictionaries describe the same thing. Finitely many keys are
  tracked; every bucket is non-empty, holds no key twice and holds only keys whose recorded
  frequency is the bucket's; every tracked key has a frequency of at least 1 and is in the
  bucket of its frequency. \<open>LFU_min_ok\<close>: when keys are tracked, \<open>min_freq\<close> is the frequency
  of one of them and no tracked key has a lower one.
\<close>

definition LFU_consistent :: "'k LFUPolicy \<Rightarrow> bool" where
  "LFU_consistent p \<longleftrightarrow>
     finite (dom (key_freq p))
     \<and> (\<forall>f bucket. freq_keys p f = Some bucket \<longrightarrow>
           bucket \<noteq> [] \<and> distinct bucket \<and> (\<forall>k \<in> set bucket. key_freq p k = Some f))
     \<and> (\<forall>k f. key_freq p k = Some f \<longrightarrow>
           1 \<le> f \<and> (\<exists>bucket. freq_keys p f = Some bucket \<and> k \<in> set bucket))"

definition LFU_min_ok :: "'k LFUPolicy \<Rightarrow> bool" where
  "LFU_min_ok p \<longleftrightarrow>
     (dom (key_freq p) \<noteq> {} \<longrightarrow>
        (\<exists>k. key_freq p k = Some (min_freq p)) \<and> (\<forall>k f. key_freq p k = Some f \<longrightarrow> min_freq p \<le> f))"

text \<open>
  The states the cache node brings its policy into: a new policy, \<open>on_access\<close> of any key
  (lines 33 and 81 of cache.py), and \<open>evict\<close> followed at once by \<open>on_access\<close> of a key that
  the policy does not track (lines 76 and 81: the key being inserted is not resident).
\<close>

inductive LFU_reachable :: "'k LFUPolicy \<Rightarrow> bool" where
  new: "LFU_reachable LFUPolicy_init"
| touch: "LFU_reachable p \<Longrightarrow> LFU_reachable (snd (LFU_on_access key p))"
| replace: "LFU_reachable p \<Longrightarrow> key \<notin> dom (key_freq (snd (LFU_evict p))) \<Longrightarrow>
     LFU_reachable (snd (LFU_on_access key (snd (LFU_evict p))))"

text \<open>
  Two runs on string keys. The first ends with an \<open>evict\<close>: \<open>a\<close> is touched twice, \<open>b\<close>
  once, and \<open>b\<close> is evicted. The second is a replacement: \<open>a\<close>, \<open>b\<close>, \<open>a\<close> are touched,
  then \<open>evict\<close> (which takes \<open>b\<close>) is followed by \<open>on_access\<close> of the new key \<open>c\<close>.
\<close>

definition LFU_stale_example :: "string LFUPolicy" where
  "LFU_stale_example =
     snd (LFU_evict (snd (LFU_on_access ''b'' (snd (LFU_on_access ''a''
       (snd (LFU_on_access ''a'' LFUPolicy_init)))))))"

definition LFU_replace_example :: "string LFUPolicy" where
  "LFU_replace_example =
     snd (LFU_on_access ''c'' (snd (LFU_evict (snd (LFU_on_access ''a''
       (snd (LFU_on_access ''b'' (snd (LFU_on_access ''a'' LFUPolicy_init)))))))))"

section \<open>The database collaborator\<close>

text \<open>
  The database is outside the core: the writers call \<open>db.set(key, value)\<close> and the loader
  calls \<open>db.get(key)\<close> on an object they are handed. It is modelled as a state of any type
  \<open>'d\<close> with the two methods as functions; each call returns its outcome (a value, or the
  exception it raises) and the database after the call.
\<close>

record ('k, 'v, 'd) db_adapter =
  db_get :: "'k \<Rightarrow> 'd \<Rightarrow> (error + 'v option) \<times> 'd"
  db_set :: "'k \<Rightarrow> 'v \<Rightarrow> 'd \<Rightarrow> (error + unit) \<times> 'd"

text \<open>\<open>MockDB\<close> of main.py: a dictionary; neither method raises.\<close>

definition MockDB :: "('k, 'v, 'k \<rightharpoonup> 'v) db_adapter" where
  "MockDB = \<lparr>db_get = (\<lambda>key data. (Inr (data key), data)),
             db_set = (\<lambda>key value data. (Inr (), data(key \<mapsto> value)))\<rparr>"

text \<open>
  A database for the failure scenarios: \<open>MockDB\<close> with two fault counters. While
  \<open>get_faults\<close> is positive \<open>get\<close> raises and counts down, likewise \<open>set\<close>; a \<open>set\<close> that
  succeeds is also appended to \<open>set_log\<close>, the calls the database has observed, and
  \<open>get_calls\<close> counts the calls of \<open>get\<close>.
\<close>

record ('k, 'v) FlakyDB_state =
  data :: "'k \<rightharpoonup> 'v"
  get_faults :: nat
  set_faults :: nat
  set_log :: "('k \<times> 'v) list"
  get_calls :: nat

definition FlakyDB :: "('k, 'v, ('k, 'v) FlakyDB_state) db_adapter" where
  "FlakyDB =
     \<lparr>db_get = (\<lambda>key d.
        if 0 < get_faults d
        then (Inl (Failure ''get failed''),
              d\<lparr>get_faults := get_faults d - 1, get_calls := get_calls d + 1\<rparr>)
        else (Inr (data d key), d\<lparr>get_calls := get_calls d + 1\<rparr>)),
      db_set = (\<lambda>key value d.
        if 0 < set_faults d then (Inl (Failure ''set failed''), d\<lparr>set_faults := set_faults d - 1\<rparr>)
        else (Inr (), d\<lparr>data := (data d)(key \<mapsto> value), set_log := set_log d @ [(key, value)]\<rparr>))\<rparr>"

section \<open>Writers\<close>

subsection \<open>\<open>WriteThroughWriter\<close> (implementations/write_through_writer.py)\<close>

text \<open>The writer has no state of its own: its only field is the reference to the database.\<close>

definition WriteThrough_write ::
  "('k, 'v, 'd) db_adapter \<Rightarrow> 'k \<Rightarrow> 'v \<Rightarrow> 'd \<Rightarrow> (error + unit) \<times> 'd" where
  "WriteThrough_write db key value d =
     (case db_set db key value d of
        (Inr _, d') \<Rightarrow> (Inr (), d')
      | (Inl e, d') \<Rightarrow> (Inl e, d'))"

definition WriteThrough_delete ::
  "('k, 'v, 'd) db_adapter \<Rightarrow> 'k \<Rightarrow> 'd \<Rightarrow> (error + unit) \<times> 'd" where
  "WriteThrough_delete db key d = (Inr (), d)"

subsection \<open>\<open>SafeWriteBackWriter\<close> (implementations/safe_write_back_writer.py)\<close>

text \<open>
  The queue holds write orders and the stop signal. The worker thread runs \<open>_flusher\<close>; its
  place in that loop is \<open>Idle\<close> (at \<open>queue.get()\<close>, line 42), \<open>Holding key value\<close> (an
  order taken from the queue and not yet handled, lines 51 to 58), \<open>Exited\<close> (after the
  \<open>break\<close>) or \<open>Crashed e\<close> (the thread ended by the exception \<open>e\<close> that left
  \<open>_flusher\<close>). \<open>queue.task_done()\<close> only counts for \<open>queue.join()\<close>, which nothing
  calls.
\<close>

datatype ('k, 'v) queue_item = Order 'k 'v | STOP_SIGNAL

datatype ('k, 'v) worker_state = Idle | Holding 'k 'v | Exited | Crashed error

record ('k, 'v) SafeWriteBackWriter =
  queue :: "('k, 'v) queue_item list"
  worker :: "('k, 'v) worker_state"

definition SafeWriteBackWriter_init :: "('k, 'v) SafeWriteBackWriter" where
  "SafeWriteBackWriter_init = \<lparr>queue = [], worker = Idle\<rparr>"

definition SafeWriteBack_write ::
  "'k \<Rightarrow> 'v \<Rightarrow> ('k, 'v) SafeWriteBackWriter \<Rightarrow> ('k, 'v) SafeWriteBackWriter" where
  "SafeWriteBack_write key value w = w\<lparr>queue := queue w @ [Order key value]\<rparr>"

definition SafeWriteBack_delete ::
  "('k, 'v, 'd) db_adapter \<Rightarrow> 'k \<Rightarrow> ('k, 'v) SafeWriteBackWriter \<times> 'd
     \<Rightarrow> (error + unit) \<times> ('k, 'v) SafeWriteBackWriter \<times> 'd" where
  "SafeWriteBack_delete db key wd = (Inr (), wd)"

text \<open>
  \<open>close\<close> has two parts: line 36 puts the stop signal on the queue, line 37 joins the
  worker thread, which returns once that thread has ended, by the \<open>break\<close> or by an
  exception.
\<close>

definition close_put_signal :: "('k, 'v) SafeWriteBackWriter \<Rightarrow> ('k, 'v) SafeWriteBackWriter" where
  "close_put_signal w = w\<lparr>queue := queue w @ [STOP_SIGNAL]\<rparr>"

definition close_join_returns :: "('k, 'v) SafeWriteBackWriter \<Rightarrow> bool" where
  "close_join_returns w = (case worker w of Exited \<Rightarrow> True | Crashed e \<Rightarrow> True | _ \<Rightarrow> False)"

text \<open>
  The worker's log lines are f-strings that format the key, the value and the caught
  exception: \<open>f"... {key} -> {value}"\<close> in line 53, inside the \<open>try\<close> and before
  \<open>db.set\<close>, and \<open>f"... {key}: {e}"\<close> in line 56, inside the handler. Formatting calls the
  object's own \<open>__format__\<close>, which can raise. The text is only logged, so the model
  keeps what matters: for each object, whether formatting it raises, and what.
\<close>

record ('k, 'v) formatting =
  format_key :: "'k \<Rightarrow> error option"
  format_value :: "'v \<Rightarrow> error option"
  format_error :: "error \<Rightarrow> error option"

text \<open>
  Formatting for string keys and integer values. A string and a built-in exception
  always format. The conversion of an integer to decimal raises \<open>ValueError\<close> when the
  integer has more than 4300 digits (the default of \<open>sys.get_int_max_str_digits()\<close>).
\<close>

definition python_formatting :: "(string, int) formatting" where
  "python_formatting =
     \<lparr>format_key = (\<lambda>key. None),
      format_value = (\<lambda>value. if 10 ^ 4300 \<le> \<bar>value\<bar> then Some ValueError else None),
      format_error = (\<lambda>e. None)\<rparr>"

text \<open>
  One turn of \<open>_flusher\<close> in two steps. \<open>flusher_get\<close> is lines 42 to 48: it needs an idle
  worker and a non-empty queue (\<open>queue.get()\<close> blocks on an empty one, the result
  \<open>None\<close>), takes the oldest item and leaves the loop on the stop signal.
  \<open>flusher_persist\<close> is lines 51 to 58: the log line, whose f-string formats the key and
  then the value, and then the database call. \<open>flusher_handler\<close> is what happens to an
  exception raised by either: an instance of \<open>Exception\<close> is caught and logged (lines 55
  and 56, formatting the key and then the exception), the order is dropped and the loop
  goes on; an exception that is not caught, or one raised by the handler's own f-string,
  leaves \<open>_flusher\<close> and ends the thread.
\<close>

definition flusher_get :: "('k, 'v) SafeWriteBackWriter \<Rightarrow> ('k, 'v) SafeWriteBackWriter option" where
  "flusher_get w =
     (case (worker w, queue w) of
        (Idle, STOP_SIGNAL # rest) \<Rightarrow> Some (w\<lparr>queue := rest, worker := Exited\<rparr>)
      | (Idle, Order key value # rest) \<Rightarrow> Some (w\<lparr>queue := rest, worker := Holding key value\<rparr>)
      | _ \<Rightarrow> None)"

definition flusher_handler :: "('k, 'v) formatting \<Rightarrow> 'k \<Rightarrow> error \<Rightarrow> ('k, 'v) worker_state" where
  "flusher_handler fmt key e =
     (if is_Exception e
      then (case format_key fmt key of
              Some e' \<Rightarrow> Crashed e'
            | None \<Rightarrow> (case format_error fmt e of Some e' \<Rightarrow> Crashed e' | None \<Rightarrow> Idle))
      else Crashed e)"

definition flusher_persist ::
  "('k, 'v) formatting \<Rightarrow> ('k, 'v, 'd) db_adapter \<Rightarrow> ('k, 'v) SafeWriteBackWriter \<times> 'd
     \<Rightarrow> (('k, 'v) SafeWriteBackWriter \<times> 'd) option" where
  "flusher_persist fmt db wd =
     (case worker (fst wd) of
        Holding key value \<Rightarrow>
          Some (case format_key fmt key of
                  Some e \<Rightarrow> ((fst wd)\<lparr>worker := flusher_handler fmt key e\<rparr>, snd wd)
                | None \<Rightarrow>
                    (case format_value fmt value of
                       Some e \<Rightarrow> ((fst wd)\<lparr>worker := flusher_handler fmt key e\<rparr>, snd wd)
                     | None \<Rightarrow>
                         (case db_set db key value (snd wd) of
                            (Inr _, d') \<Rightarrow> ((fst wd)\<lparr>worker := Idle\<rparr>, d')
                          | (Inl e, d') \<Rightarrow> ((fst wd)\<lparr>worker := flusher_handler fmt key e\<rparr>, d'))))
      | _ \<Rightarrow> None)"

text \<open>
  The writer with its clients and its worker as an interleaving of atomic steps: a
  client's \<open>write\<close>, the first part of a client's \<open>close\<close>, and the two worker steps.
  A step that cannot run in a state (the worker blocked or gone) has no successor.
\<close>

datatype ('k, 'v) wb_action = Write 'k 'v | CloseSignal | WorkerGet | WorkerPersist

fun wb_step ::
  "('k, 'v) formatting \<Rightarrow> ('k, 'v, 'd) db_adapter \<Rightarrow> ('k, 'v) wb_action
     \<Rightarrow> ('k, 'v) SafeWriteBackWriter \<times> 'd \<Rightarrow> (('k, 'v) SafeWriteBackWriter \<times> 'd) option" where
  "wb_step fmt db (Write key value) (w, d) = Some (SafeWriteBack_write key value w, d)"
| "wb_step fmt db CloseSignal (w, d) = Some (close_put_signal w, d)"
| "wb_step fmt db WorkerGet (w, d) =
     (case flusher_get w of None \<Rightarrow> None | Some w' \<Rightarrow> Some (w', d))"
| "wb_step fmt db WorkerPersist (w, d) = flusher_persist fmt db (w, d)"

fun wb_run ::
  "('k, 'v) formatting \<Rightarrow> ('k, 'v, 'd) db_adapter \<Rightarrow> ('k, 'v) wb_action list
     \<Rightarrow> ('k, 'v) SafeWriteBackWriter \<times> 'd \<Rightarrow> (('k, 'v) SafeWriteBackWriter \<times> 'd) option" where
  "wb_run fmt db [] s = Some s"
| "wb_run fmt db (a # as) s =
     (case wb_step fmt db a s of None \<Rightarrow> None | Some s' \<Rightarrow> wb_run fmt db as s')"

text \<open>
  What the drain needs from the collaborators: formatting never raises, and the
  database's \<open>set\<close> raises only instances of \<open>Exception\<close>.
\<close>

definition formatting_succeeds :: "('k, 'v) formatting \<Rightarrow> bool" where
  "formatting_succeeds fmt \<longleftrightarrow>
     (\<forall>key. format_key fmt key = None) \<and> (\<forall>value. format_value fmt value = None)
     \<and> (\<forall>e. format_error fmt e = None)"

definition set_raises_Exceptions :: "('k, 'v, 'd) db_adapter \<Rightarrow> bool" where
  "set_raises_Exceptions db \<longleftrightarrow>
     (\<forall>key value d e d'. db_set db key value d = (Inl e, d') \<longrightarrow> is_Exception e)"

text \<open>
  An integer of 5001 digits, and formatting for string keys and string values, which
  never raises.
\<close>

definition huge :: int where
  "huge = 10 ^ 5000"

definition string_formatting :: "(string, string) formatting" where
  "string_formatting =
     \<lparr>format_key = (\<lambda>key. None), format_value = (\<lambda>value. None), format_error = (\<lambda>e. None)\<rparr>"

text \<open>The \<open>write\<close> calls of a run made before \<open>close\<close> was first invoked, in call order.\<close>

fun writes_before_close :: "('k, 'v) wb_action list \<Rightarrow> ('k \<times> 'v) list" where
  "writes_before_close [] = []"
| "writes_before_close (Write key value # as) = (key, value) # writes_before_close as"
| "writes_before_close (CloseSignal # as) = []"
| "writes_before_close (WorkerGet # as) = writes_before_close as"
| "writes_before_close (WorkerPersist # as) = writes_before_close as"

text \<open>The database after \<open>set\<close> has been called with each order of a list, in list order.\<close>

fun deliver :: "('k, 'v, 'd) db_adapter \<Rightarrow> ('k \<times> 'v) list \<Rightarrow> 'd \<Rightarrow> 'd" where
  "deliver db [] d = d"
| "deliver db ((key, value) # kvs) d = deliver db kvs (snd (db_set db key value d))"

text \<open>
  For the proof of the drain: the items a run has put on the queue, in order; the items
  the writer still has to handle, the one in the worker's hands first (for an exited worker
  the stop signal it consumed stands for that; a crashed worker holds nothing); and orders
  as queue items.
\<close>

fun enqueued :: "('k, 'v) wb_action list \<Rightarrow> ('k, 'v) queue_item list" where
  "enqueued [] = []"
| "enqueued (Write key value # as) = Order key value # enqueued as"
| "enqueued (CloseSignal # as) = STOP_SIGNAL # enqueued as"
| "enqueued (WorkerGet # as) = enqueued as"
| "enqueued (WorkerPersist # as) = enqueued as"

definition pending :: "('k, 'v) SafeWriteBackWriter \<Rightarrow> ('k, 'v) queue_item list" where
  "pending w =
     (case worker w of
        Idle \<Rightarrow> queue w
      | Holding key value \<Rightarrow> Order key value # queue w
      | Exited \<Rightarrow> STOP_SIGNAL # queue w
      | Crashed e \<Rightarrow> queue w)"

definition orders :: "('k \<times> 'v) list \<Rightarrow> ('k, 'v) queue_item list" where
  "orders kvs = map (\<lambda>(key, value). Order key value) kvs"

text \<open>A worker is alive when its thread has not been ended by an exception.\<close>

definition alive :: "('k, 'v) SafeWriteBackWriter \<Rightarrow> bool" where
  "alive w \<longleftrightarrow> (\<forall>e. worker w \<noteq> Crashed e)"

text \<open>
  Two databases for the runs of the writer: an empty one that records the calls of
  \<open>set\<close>, and one whose \<open>set\<close> raises an exception outside \<open>Exception\<close>.
\<close>

definition empty_db :: "(string, int) FlakyDB_state" where
  "empty_db = \<lparr>data = Map.empty, get_faults = 0, set_faults = 0, set_log = [], get_calls = 0\<rparr>"

definition ExitingDB :: "(string, string, unit) db_adapter" where
  "ExitingDB = \<lparr>db_get = (\<lambda>key d. (Inr None, d)), db_set = (\<lambda>key value d. (Inl SystemExit, d))\<rparr>"

section \<open>\<open>RequestCoalescer\<close> (utils/request_coalescer.py)\<close>

text \<open>
  The three dictionaries are the fields of the class. A \<open>threading.Event\<close> is an object
  with one flag; the events created so far are the list \<open>event_flags\<close>, an event is its
  index in that list, and a new event is appended with its flag cleared.
\<close>

record ('k, 'v) RequestCoalescer =
  active_requests :: "'k \<rightharpoonup> nat"
  results :: "'k \<rightharpoonup> 'v option"
  errors :: "'k \<rightharpoonup> error"
  event_flags :: "bool list"

definition RequestCoalescer_init :: "('k, 'v) RequestCoalescer" where
  "RequestCoalescer_init =
     \<lparr>active_requests = Map.empty, results = Map.empty, errors = Map.empty, event_flags = []\<rparr>"

text \<open>
  \<open>do\<close> in the pieces between which other threads can run.
  \<open>do_enter\<close> is the first critical section (lines 26 to 36): it returns \<open>wait\<close>, the event
  and the coalescer with the new record, if one was installed.
  \<open>do_wait\<close> is the follower's path (lines 40 to 44): \<open>event.wait()\<close> returns only once the
  flag is set, so there is no outcome (\<open>None\<close>) before that; then the stored error is
  raised if the key has one, else \<open>results.get(key)\<close> is returned.
  \<open>do_store\<close> is what the leader does with the outcome of \<open>fn()\<close> (lines 49 and 50 for a
  result, 53 and 54 for an exception that \<open>except Exception\<close> catches, nothing for one
  that it does not), \<open>do_finally\<close> is its \<open>finally\<close> block (lines 58 to 61); after it the
  leader returns the result or raises the exception again.
\<close>

definition do_enter :: "'k \<Rightarrow> ('k, 'v) RequestCoalescer \<Rightarrow> bool \<times> nat \<times> ('k, 'v) RequestCoalescer" where
  "do_enter key c =
     (case active_requests c key of
        Some event \<Rightarrow> (True, event, c)
      | None \<Rightarrow>
          (let event = length (event_flags c)
           in (False, event,
               c\<lparr>event_flags := event_flags c @ [False],
                  active_requests := (active_requests c)(key \<mapsto> event)\<rparr>)))"

definition do_wait :: "'k \<Rightarrow> nat \<Rightarrow> ('k, 'v) RequestCoalescer \<Rightarrow> (error + 'v option) option" where
  "do_wait key event c =
     (if event < length (event_flags c) \<and> event_flags c ! event
      then Some (case errors c key of
                   Some e \<Rightarrow> Inl e
                 | None \<Rightarrow> Inr (case results c key of None \<Rightarrow> None | Some result \<Rightarrow> result))
      else None)"

definition do_store ::
  "'k \<Rightarrow> error + 'v option \<Rightarrow> ('k, 'v) RequestCoalescer \<Rightarrow> ('k, 'v) RequestCoalescer" where
  "do_store key outcome c =
     (case outcome of
        Inr result \<Rightarrow> c\<lparr>results := (results c)(key \<mapsto> result)\<rparr>
      | Inl e \<Rightarrow> if is_Exception e then c\<lparr>errors := (errors c)(key \<mapsto> e)\<rparr> else c)"

definition do_finally :: "'k \<Rightarrow> nat \<Rightarrow> ('k, 'v) RequestCoalescer \<Rightarrow> ('k, 'v) RequestCoalescer" where
  "do_finally key event c =
     c\<lparr>event_flags := (event_flags c)[event := True],
        active_requests := (if key \<in> dom (active_requests c) then (active_requests c)(key := None)
                            else active_requests c)\<rparr>"

text \<open>
  \<open>do\<close> for a caller that runs without interruption. The thunk \<open>fn\<close> works on some state
  \<open>'e\<close> outside the coalescer. A follower whose event is never set does not return.
\<close>

definition RequestCoalescer_do ::
  "'k \<Rightarrow> ('e \<Rightarrow> (error + 'v option) \<times> 'e) \<Rightarrow> ('k, 'v) RequestCoalescer \<times> 'e
     \<Rightarrow> ((error + 'v option) \<times> ('k, 'v) RequestCoalescer \<times> 'e) option" where
  "RequestCoalescer_do key fn ce =
     (case do_enter key (fst ce) of
        (True, event, c1) \<Rightarrow>
          (case do_wait key event c1 of
             None \<Rightarrow> None
           | Some outcome \<Rightarrow> Some (outcome, (c1, snd ce)))
      | (False, event, c1) \<Rightarrow>
          (case fn (snd ce) of
             (outcome, e') \<Rightarrow> Some (outcome, (do_finally key event (do_store key outcome c1), e'))))"

section \<open>\<open>RobustCache\<close> (cache.py)\<close>

text \<open>The policy of a node is one of the two implementations of \<open>EvictionPolicy\<close>.\<close>

datatype 'k EvictionPolicy = LRU "'k LRUPolicy" | LFU "'k LFUPolicy"

fun EvictionPolicy_on_access :: "'k \<Rightarrow> 'k EvictionPolicy \<Rightarrow> (error + unit) \<times> 'k EvictionPolicy" where
  "EvictionPolicy_on_access key (LRU p) = (Inr (), LRU (LRU_on_access key p))"
| "EvictionPolicy_on_access key (LFU p) = (case LFU_on_access key p of (r, p') \<Rightarrow> (r, LFU p'))"

fun EvictionPolicy_evict :: "'k EvictionPolicy \<Rightarrow> (error + 'k option) \<times> 'k EvictionPolicy" where
  "EvictionPolicy_evict (LRU p) = (case LRU_evict p of (victim, p') \<Rightarrow> (Inr victim, LRU p'))"
| "EvictionPolicy_evict (LFU p) = (case LFU_evict p of (r, p') \<Rightarrow> (r, LFU p'))"

text \<open>The keys a policy tracks.\<close>

fun policy_keys :: "'k EvictionPolicy \<Rightarrow> 'k set" where
  "policy_keys (LRU p) = set (order p)"
| "policy_keys (LFU p) = dom (key_freq p)"

text \<open>The loader (implementations/database_loader.py) asks the database.\<close>

datatype loader = DatabaseLoader

definition DatabaseLoader_load ::
  "('k, 'v, 'd) db_adapter \<Rightarrow> 'k \<Rightarrow> 'd \<Rightarrow> (error + 'v option) \<times> 'd" where
  "DatabaseLoader_load db key d = db_get db key d"

text \<open>
  The writer of a node is one of the two implementations of \<open>CacheWriter\<close>; \<open>write\<close> of the
  write-back writer only puts the order on the queue.
\<close>

datatype ('k, 'v) CacheWriter = WriteThrough | WriteBack "('k, 'v) SafeWriteBackWriter"

fun CacheWriter_write ::
  "('k, 'v, 'd) db_adapter \<Rightarrow> 'k \<Rightarrow> 'v \<Rightarrow> ('k, 'v) CacheWriter \<times> 'd
     \<Rightarrow> (error + unit) \<times> ('k, 'v) CacheWriter \<times> 'd" where
  "CacheWriter_write db key value (WriteThrough, d) =
     (case WriteThrough_write db key value d of (r, d') \<Rightarrow> (r, (WriteThrough, d')))"
| "CacheWriter_write db key value (WriteBack w, d) =
     (Inr (), (WriteBack (SafeWriteBack_write key value w), d))"

text \<open>
  The node. Keys are strings, as on the routing surface (\<open>DistributedCache.get(key: str)\<close>,
  \<open>DatabaseLoader(CacheLoader[str, str])\<close>); \<open>len(self.storage)\<close> is the number of keys
  of the dictionary. The node's locks are not modelled: every function below is one
  critical section or runs without interruption.
\<close>

record 'v RobustCache =
  capacity :: int
  storage :: "string \<rightharpoonup> 'v"
  eviction :: "string EvictionPolicy"
  loader :: "loader option"
  writer :: "(string, 'v) CacheWriter option"
  coalescer :: "(string, 'v) RequestCoalescer"

definition RobustCache_init ::
  "int \<Rightarrow> string EvictionPolicy \<Rightarrow> loader option \<Rightarrow> (string, 'v) CacheWriter option \<Rightarrow> 'v RobustCache" where
  "RobustCache_init cap policy ld wr =
     \<lparr>capacity = cap, storage = Map.empty, eviction = policy, loader = ld, writer = wr,
      coalescer = RequestCoalescer_init\<rparr>"

text \<open>Python's truth value of a string, which \<open>if victim:\<close> tests: the empty string is false.\<close>

definition truthy :: "string \<Rightarrow> bool" where
  "truthy s \<longleftrightarrow> s \<noteq> []"

text \<open>
  \<open>_put_internal\<close>, lines 75 to 81. \<open>make_room\<close> is the body of its first \<open>if\<close>
  (lines 76 to 78): the victim is deleted from storage when \<open>evict\<close> returned a key and
  that key is true.
\<close>

definition make_room :: "'v RobustCache \<Rightarrow> (error + unit) \<times> 'v RobustCache" where
  "make_room n =
     (case EvictionPolicy_evict (eviction n) of
        (Inl e, p') \<Rightarrow> (Inl e, n\<lparr>eviction := p'\<rparr>)
      | (Inr None, p') \<Rightarrow> (Inr (), n\<lparr>eviction := p'\<rparr>)
      | (Inr (Some victim), p') \<Rightarrow>
          if truthy victim
          then (if victim \<in> dom (storage n)
                then (Inr (), n\<lparr>eviction := p', storage := (storage n)(victim := None)\<rparr>)
                else (Inl KeyError, n\<lparr>eviction := p'\<rparr>))
          else (Inr (), n\<lparr>eviction := p'\<rparr>))"

definition put_internal :: "string \<Rightarrow> 'v \<Rightarrow> 'v RobustCache \<Rightarrow> (error + unit) \<times> 'v RobustCache" where
  "put_internal key value n =
     (case (if key \<notin> dom (storage n) \<and> capacity n \<le> int (card (dom (storage n)))
            then make_room n else (Inr (), n)) of
        (Inl e, n1) \<Rightarrow> (Inl e, n1)
      | (Inr _, n1) \<Rightarrow>
          (let n2 = n1\<lparr>storage := (storage n1)(key \<mapsto> value)\<rparr>
           in case EvictionPolicy_on_access key (eviction n2) of
                (r, p') \<Rightarrow> (r, n2\<lparr>eviction := p'\<rparr>)))"

definition RobustCache_put ::
  "(string, 'v, 'd) db_adapter \<Rightarrow> string \<Rightarrow> 'v \<Rightarrow> 'v RobustCache \<times> 'd
     \<Rightarrow> (error + unit) \<times> 'v RobustCache \<times> 'd" where
  "RobustCache_put db key value nd =
     (case writer (fst nd) of
        None \<Rightarrow> (case put_internal key value (fst nd) of (r, n') \<Rightarrow> (r, (n', snd nd)))
      | Some w \<Rightarrow>
          (case CacheWriter_write db key value (w, snd nd) of
             (Inl e, (w', d')) \<Rightarrow> (Inl e, ((fst nd)\<lparr>writer := Some w'\<rparr>, d'))
           | (Inr _, (w', d')) \<Rightarrow>
               (case put_internal key value ((fst nd)\<lparr>writer := Some w'\<rparr>) of
                  (r, n') \<Rightarrow> (r, (n', d')))))"

text \<open>
  \<open>get\<close>: \<open>get_lookup\<close> is the hit path under the lock (lines 31 to 35), with no outcome
  on a miss; \<open>load_from_source\<close> is \<open>_load_from_source\<close>, the thunk handed to the coalescer.
\<close>

definition get_lookup :: "string \<Rightarrow> 'v RobustCache \<Rightarrow> (error + 'v option) option \<times> 'v RobustCache" where
  "get_lookup key n =
     (if key \<in> dom (storage n)
      then (case EvictionPolicy_on_access key (eviction n) of
              (Inl e, p') \<Rightarrow> (Some (Inl e), n\<lparr>eviction := p'\<rparr>)
            | (Inr _, p') \<Rightarrow> (Some (Inr (storage n key)), n\<lparr>eviction := p'\<rparr>))
      else (None, n))"

definition load_from_source ::
  "(string, 'v, 'd) db_adapter \<Rightarrow> string \<Rightarrow> 'v RobustCache \<times> 'd
     \<Rightarrow> (error + 'v option) \<times> 'v RobustCache \<times> 'd" where
  "load_from_source db key nd =
     (case DatabaseLoader_load db key (snd nd) of
        (Inl e, d') \<Rightarrow> (Inl e, (fst nd, d'))
      | (Inr None, d') \<Rightarrow> (Inr None, (fst nd, d'))
      | (Inr (Some value), d') \<Rightarrow>
          (case put_internal key value (fst nd) of
             (Inl e, n') \<Rightarrow> (Inl e, (n', d'))
           | (Inr _, n') \<Rightarrow> (Inr (Some value), (n', d'))))"

text \<open>\<open>get\<close> for a caller that runs without interruption.\<close>

definition RobustCache_get ::
  "(string, 'v, 'd) db_adapter \<Rightarrow> string \<Rightarrow> 'v RobustCache \<times> 'd
     \<Rightarrow> ((error + 'v option) \<times> 'v RobustCache \<times> 'd) option" where
  "RobustCache_get db key nd =
     (case get_lookup key (fst nd) of
        (Some outcome, n1) \<Rightarrow> Some (outcome, (n1, snd nd))
      | (None, n1) \<Rightarrow>
          if loader n1 = None then Some (Inr None, (n1, snd nd))
          else
            (case do_enter key (coalescer n1) of
               (True, event, c') \<Rightarrow>
                 (case do_wait key event c' of
                    None \<Rightarrow> None
                  | Some outcome \<Rightarrow> Some (outcome, (n1\<lparr>coalescer := c'\<rparr>, snd nd)))
             | (False, event, c') \<Rightarrow>
                 (case load_from_source db key (n1\<lparr>coalescer := c'\<rparr>, snd nd) of
                    (outcome, (n2, d')) \<Rightarrow>
                      Some (outcome,
                            (n2\<lparr>coalescer := do_finally key event (do_store key outcome (coalescer n2))\<rparr>,
                             d')))))"

subsection \<open>Invariants of the node\<close>

text \<open>
  What a policy guarantees between two operations of the node (\<open>policy_inv\<close>) and right
  after an \<open>evict\<close> (\<open>policy_weak\<close>): for LRU the order holds no key twice; for LFU the
  dictionaries are consistent, and between operations \<open>min_freq\<close> is right.
\<close>

fun policy_inv :: "'k EvictionPolicy \<Rightarrow> bool" where
  "policy_inv (LRU p) = distinct (order p)"
| "policy_inv (LFU p) = (LFU_consistent p \<and> LFU_min_ok p)"

fun policy_weak :: "'k EvictionPolicy \<Rightarrow> bool" where
  "policy_weak (LRU p) = distinct (order p)"
| "policy_weak (LFU p) = LFU_consistent p"

text \<open>
  The invariant of a node: the capacity is at least 1, storage holds at most that many
  keys, the policy tracks exactly the keys of storage, and the empty string is not a
  key. A node is idle when no load is in flight.
\<close>

definition node_inv :: "'v RobustCache \<Rightarrow> bool" where
  "node_inv n \<longleftrightarrow>
     1 \<le> capacity n \<and> finite (dom (storage n)) \<and> int (card (dom (storage n))) \<le> capacity n
     \<and> policy_keys (eviction n) = dom (storage n) \<and> policy_inv (eviction n)
     \<and> [] \<notin> dom (storage n)"

definition idle :: "'v RobustCache \<Rightarrow> bool" where
  "idle n \<longleftrightarrow> active_requests (coalescer n) = Map.empty"

text \<open>Sequences of \<open>get\<close> and \<open>put\<close> calls on a node, each running to its end.\<close>

datatype 'v node_call = Get string | Put string 'v

fun call_key :: "'v node_call \<Rightarrow> string" where
  "call_key (Get key) = key"
| "call_key (Put key val) = key"

fun node_apply ::
  "(string, 'v, 'd) db_adapter \<Rightarrow> 'v node_call \<Rightarrow> 'v RobustCache \<times> 'd
     \<Rightarrow> ('v RobustCache \<times> 'd) option" where
  "node_apply db (Get key) nd = map_option snd (RobustCache_get db key nd)"
| "node_apply db (Put key val) nd = Some (snd (RobustCache_put db key val nd))"

fun node_run ::
  "(string, 'v, 'd) db_adapter \<Rightarrow> 'v node_call list \<Rightarrow> 'v RobustCache \<times> 'd
     \<Rightarrow> ('v RobustCache \<times> 'd) option" where
  "node_run db [] nd = Some nd"
| "node_run db (c # cs) nd =
     (case node_apply db c nd of None \<Rightarrow> None | Some nd' \<Rightarrow> node_run db cs nd')"

subsection \<open>Concurrent \<open>get\<close> calls\<close>

text \<open>
  A thread inside \<open>get(key)\<close> is at one of these places: before the lookup; past a miss
  and before \<open>coalescer.do\<close>; in \<open>do\<close> as the leader, about to call the thunk; leader with the
  outcome stored, before the \<open>finally\<close> block; follower at \<open>event.wait()\<close>; or finished with
  its outcome. \<open>get_step\<close> runs one thread from its place to the next; a finished thread
  and a follower whose event is not set have no step. A system is a list of threads, each
  with its key, over one node and one database, and a schedule is the list of the indices
  of the threads that take the steps.
\<close>

datatype 'v get_pc =
  Start | Missed | Leader nat | Stored nat "error + 'v option" | Follower nat
  | Finished "error + 'v option"

fun get_step ::
  "(string, 'v, 'd) db_adapter \<Rightarrow> string \<Rightarrow> 'v get_pc \<Rightarrow> 'v RobustCache \<times> 'd
     \<Rightarrow> ('v get_pc \<times> 'v RobustCache \<times> 'd) option" where
  "get_step db key Start (n, d) =
     (case get_lookup key n of
        (Some outcome, n') \<Rightarrow> Some (Finished outcome, (n', d))
      | (None, n') \<Rightarrow>
          if loader n' = None then Some (Finished (Inr None), (n', d)) else Some (Missed, (n', d)))"
| "get_step db key Missed (n, d) =
     (case do_enter key (coalescer n) of
        (True, event, c') \<Rightarrow> Some (Follower event, (n\<lparr>coalescer := c'\<rparr>, d))
      | (False, event, c') \<Rightarrow> Some (Leader event, (n\<lparr>coalescer := c'\<rparr>, d)))"
| "get_step db key (Leader event) (n, d) =
     (case load_from_source db key (n, d) of
        (outcome, (n', d')) \<Rightarrow>
          Some (Stored event outcome, (n'\<lparr>coalescer := do_store key outcome (coalescer n')\<rparr>, d')))"
| "get_step db key (Stored event outcome) (n, d) =
     Some (Finished outcome, (n\<lparr>coalescer := do_finally key event (coalescer n)\<rparr>, d))"
| "get_step db key (Follower event) (n, d) =
     (case do_wait key event (coalescer n) of
        None \<Rightarrow> None
      | Some outcome \<Rightarrow> Some (Finished outcome, (n, d)))"
| "get_step db key (Finished outcome) (n, d) = None"

type_synonym ('v, 'd) get_system = "(string \<times> 'v get_pc) list \<times> 'v RobustCache \<times> 'd"

definition sys_step ::
  "(string, 'v, 'd) db_adapter \<Rightarrow> nat \<Rightarrow> ('v, 'd) get_system \<Rightarrow> ('v, 'd) get_system option" where
  "sys_step db i sys =
     (case sys of (threads, nd) \<Rightarrow>
        if length threads \<le> i then None
        else (case get_step db (fst (threads ! i)) (snd (threads ! i)) nd of
                None \<Rightarrow> None
              | Some (pc', nd') \<Rightarrow> Some (threads[i := (fst (threads ! i), pc')], nd')))"

fun sys_run ::
  "(string, 'v, 'd) db_adapter \<Rightarrow> nat list \<Rightarrow> ('v, 'd) get_system \<Rightarrow> ('v, 'd) get_system option" where
  "sys_run db [] sys = Some sys"
| "sys_run db (i # is) sys =
     (case sys_step db i sys of None \<Rightarrow> None | Some sys' \<Rightarrow> sys_run db is sys')"

subsection \<open>Scenarios\<close>

text \<open>
  A node of capacity 1 without loader and writer, after \<open>put("", "x")\<close> and
  \<open>put("a", "y")\<close>.
\<close>

definition falsy_key_node :: "string RobustCache \<times> (string \<rightharpoonup> string)" where
  "falsy_key_node =
     snd (RobustCache_put MockDB ''a'' ''y''
       (snd (RobustCache_put MockDB [] ''x''
          (RobustCache_init 1 (LRU LRUPolicy_init) None None, Map.empty))))"

text \<open>
  Three \<open>get("x")\<close> calls on a new node with a loader, over a database that holds
  \<open>x\<close> and whose first \<open>get\<close> fails. \<open>stale_before\<close> is the system once the first call
  has run alone and failed: the cache is empty, no load is in flight, the two other calls
  have not begun. \<open>stale_after\<close> is the system after those two have run concurrently.
\<close>

definition stale_start :: "(string, (string, string) FlakyDB_state) get_system" where
  "stale_start =
     ([(''x'', Start), (''x'', Start), (''x'', Start)],
      RobustCache_init 3 (LRU LRUPolicy_init) (Some DatabaseLoader) None,
      \<lparr>data = [''x'' \<mapsto> ''v''], get_faults = 1, set_faults = 0, set_log = [], get_calls = 0\<rparr>)"

definition stale_before :: "(string, (string, string) FlakyDB_state) get_system" where
  "stale_before =
     ([(''x'', Finished (Inl (Failure ''get failed''))), (''x'', Start), (''x'', Start)],
      \<lparr>capacity = 3, storage = Map.empty, eviction = LRU \<lparr>order = []\<rparr>,
       loader = Some DatabaseLoader, writer = None,
       coalescer = \<lparr>active_requests = Map.empty, results = Map.empty,
                    errors = [''x'' \<mapsto> Failure ''get failed''], event_flags = [True]\<rparr>\<rparr>,
      \<lparr>data = [''x'' \<mapsto> ''v''], get_faults = 0, set_faults = 0, set_log = [], get_calls = 1\<rparr>)"

definition stale_after :: "(string, (string, string) FlakyDB_state) get_system" where
  "stale_after =
     ([(''x'', Finished (Inl (Failure ''get failed''))),
       (''x'', Finished (Inr (Some ''v''))),
       (''x'', Finished (Inl (Failure ''get failed'')))],
      \<lparr>capacity = 3, storage = [''x'' \<mapsto> ''v''], eviction = LRU \<lparr>order = [''x'']\<rparr>,
       loader = Some DatabaseLoader, writer = None,
       coalescer = \<lparr>active_requests = Map.empty, results = [''x'' \<mapsto> Some ''v''],
                    errors = [''x'' \<mapsto> Failure ''get failed''], event_flags = [True, True]\<rparr>\<rparr>,
      \<lparr>data = [''x'' \<mapsto> ''v''], get_faults = 0, set_faults = 0, set_log = [], get_calls = 2\<rparr>)"

text \<open>
  The coalescer after a first window on key \<open>x\<close> whose thunk raised, and the same with
  the record of a second window installed.
\<close>

definition after_failed_window :: "(string, int) RequestCoalescer" where
  "after_failed_window =
     \<lparr>active_requests = Map.empty, results = Map.empty,
      errors = [''x'' \<mapsto> Failure ''boom''], event_flags = [True]\<rparr>"

definition second_window :: "(string, int) RequestCoalescer" where
  "second_window =
     \<lparr>active_requests = [''x'' \<mapsto> 1], results = Map.empty,
      errors = [''x'' \<mapsto> Failure ''boom''], event_flags = [True, False]\<rparr>"



text \<open>
  Two \<open>get("x")\<close> calls on a new node with a loader, over a database that holds \<open>x\<close>
  and does not fail.
\<close>

definition race_start :: "(string, (string, string) FlakyDB_state) get_system" where
  "race_start =
     ([(''x'', Start), (''x'', Start)],
      RobustCache_init 3 (LRU LRUPolicy_init) (Some DatabaseLoader) None,
      \<lparr>data = [''x'' \<mapsto> ''v''], get_faults = 0, set_faults = 0, set_log = [], get_calls = 0\<rparr>)"

section \<open>\<open>ConsistentHashing\<close> (distribution/consistent_hashing.py)\<close>

text \<open>
  \<open>bisect.bisect\<close> is \<open>bisect_right\<close> of the standard library, a binary search:
  \<^verbatim>\<open>
  while lo < hi:
      mid = (lo + hi) // 2
      if x < a[mid]: hi = mid
      else: lo = mid + 1
  return lo
  \<close>
  started with \<open>lo = 0\<close> and \<open>hi = len(a)\<close>, so every index it reads is in range.
  \<open>bisect.insort(a, x)\<close> is \<open>a.insert(bisect_right(a, x), x)\<close>.
\<close>

function bisect_loop :: "int list \<Rightarrow> int \<Rightarrow> nat \<Rightarrow> nat \<Rightarrow> nat" where
  "bisect_loop a x lo hi =
     (if lo < hi
      then (let mid = (lo + hi) div 2
            in if x < a ! mid then bisect_loop a x lo mid else bisect_loop a x (mid + 1) hi)
      else lo)"
  by pat_completeness auto
termination
  by (relation "measure (\<lambda>(a, x, lo, hi). hi - lo)") auto

definition bisect :: "int list \<Rightarrow> int \<Rightarrow> nat" where
  "bisect a x = bisect_loop a x 0 (length a)"

definition insort_bisect :: "int list \<Rightarrow> int \<Rightarrow> int list" where
  "insort_bisect a x = (let i = bisect a x in take i a @ x # drop i a)"

text \<open>\<open>str(i)\<close> for a natural number, as the f-string \<open>f"{node}:{i}"\<close> renders it.\<close>

fun str_nat :: "nat \<Rightarrow> string" where
  "str_nat n =
     (if n < 10 then [''0123456789'' ! n]
      else str_nat (n div 10) @ [''0123456789'' ! (n mod 10)])"

text \<open>
  The ring. \<open>ring\<close> is a dictionary from positions to labels, kept as the list of its
  items in insertion order (\<open>remove_node\<close> iterates over it): assigning to a present key
  replaces the value in place and a new key goes to the end, which is \<open>AList.update\<close>;
  \<open>del\<close> is \<open>AList.delete\<close>. Labels are strings, as the router's are. The digest
  \<open>_hash\<close> (MD5 of the UTF-8 bytes, as an integer) comes from \<open>hashlib\<close> and is the
  parameter \<open>H\<close> of every function that hashes.
\<close>

record ConsistentHashing =
  replicas :: int
  ring :: "(int \<times> string) list"
  sorted_keys :: "int list"

definition add_vnode :: "(string \<Rightarrow> int) \<Rightarrow> string \<Rightarrow> ConsistentHashing \<Rightarrow> nat \<Rightarrow> ConsistentHashing" where
  "add_vnode H node r i =
     (let key = H (node @ '':'' @ str_nat i)
      in r\<lparr>ring := AList.update key node (ring r),
            sorted_keys := insort_bisect (sorted_keys r) key\<rparr>)"

definition add_node :: "(string \<Rightarrow> int) \<Rightarrow> string \<Rightarrow> ConsistentHashing \<Rightarrow> ConsistentHashing" where
  "add_node H node r = foldl (add_vnode H node) r [0 ..< nat (replicas r)]"

definition ConsistentHashing_init :: "(string \<Rightarrow> int) \<Rightarrow> string list \<Rightarrow> int \<Rightarrow> ConsistentHashing" where
  "ConsistentHashing_init H nodes R =
     foldl (\<lambda>r node. add_node H node r) \<lparr>replicas = R, ring = [], sorted_keys = []\<rparr> nodes"

text \<open>
  \<open>remove_node\<close> collects the positions whose label is the node, then for each of them
  deletes the dictionary entry (\<open>KeyError\<close> when absent) and removes its first occurrence
  from \<open>sorted_keys\<close> (\<open>list.remove\<close> raises \<open>ValueError\<close> when there is none).
\<close>

fun remove_keys :: "int list \<Rightarrow> ConsistentHashing \<Rightarrow> (error + unit) \<times> ConsistentHashing" where
  "remove_keys [] r = (Inr (), r)"
| "remove_keys (key # keys) r =
     (if key \<notin> fst ` set (ring r) then (Inl KeyError, r)
      else let r1 = r\<lparr>ring := AList.delete key (ring r)\<rparr>
           in if key \<notin> set (sorted_keys r1) then (Inl ValueError, r1)
              else remove_keys keys (r1\<lparr>sorted_keys := remove1 key (sorted_keys r1)\<rparr>))"

definition remove_node :: "string \<Rightarrow> ConsistentHashing \<Rightarrow> (error + unit) \<times> ConsistentHashing" where
  "remove_node node r = remove_keys (map fst (filter (\<lambda>(key, n). n = node) (ring r))) r"


text \<open>
  A ring is consistent when \<open>sorted_keys\<close> is sorted and lists exactly the positions that
  \<open>ring\<close> maps; its positions are distinct when none occurs twice (in the dictionary none
  ever does).
\<close>

definition ring_consistent :: "ConsistentHashing \<Rightarrow> bool" where
  "ring_consistent r \<longleftrightarrow> sorted (sorted_keys r) \<and> set (sorted_keys r) = fst ` set (ring r)"

definition ring_distinct :: "ConsistentHashing \<Rightarrow> bool" where
  "ring_distinct r \<longleftrightarrow> distinct (sorted_keys r) \<and> distinct (map fst (ring r))"




chapter \<open>Properties\<close>

section \<open>The policies\<close>

lemma LRU_call_distinct: "distinct (order p) \<Longrightarrow> distinct (order (LRU_call c p))"
  by (cases c) (auto simp: LRU_on_access_def LRU_evict_def split: list.splits)

lemma LRU_run_distinct: "distinct (order p) \<Longrightarrow> distinct (order (LRU_run cs p))"
  by (induction cs arbitrary: p) (simp_all add: LRU_call_distinct)

lemma LRU_on_access_twice:
  assumes "distinct (order p)"
  shows "LRU_on_access key (LRU_on_access key p) = LRU_on_access key p"
proof -
  let ?xs = "if key \<in> set (order p) then remove1 key (order p) else order p"
  have "key \<notin> set ?xs" using assms by auto
  then have "remove1 key (?xs @ [key]) = ?xs"
    by (simp add: remove1_append remove1_idem)
  then show ?thesis by (simp add: LRU_on_access_def)
qed

text \<open>
  C9 (amended). For the LRU policy, in every state that calls of \<open>on_access\<close> and \<open>evict\<close>
  reach from a new policy, \<open>on_access(k)\<close> is idempotent: a second call in succession
  leaves the state of the first.
\<close>

theorem LRU_on_access_idempotent:
  "LRU_on_access key (LRU_on_access key (LRU_run calls LRUPolicy_init))
     = LRU_on_access key (LRU_run calls LRUPolicy_init)"
  by (rule LRU_on_access_twice, rule LRU_run_distinct) (simp add: LRUPolicy_init_def)

text \<open>
  C9 as stated fails for LFU: every \<open>on_access\<close> of a tracked key raises its frequency,
  so two calls on a new policy leave frequency 2 where one call leaves 1.
\<close>

theorem LFU_on_access_not_idempotent:
  "snd (LFU_on_access ''a'' (snd (LFU_on_access ''a'' LFUPolicy_init)))
     \<noteq> snd (LFU_on_access ''a'' LFUPolicy_init)"
proof -
  have one: "key_freq (snd (LFU_on_access ''a'' LFUPolicy_init)) ''a'' = Some 1"
    by (simp add: LFU_on_access_def LFU_set_freq_def defaultdict_getitem_def
        LFUPolicy_init_def od_setitem_def)
  have two: "key_freq (snd (LFU_on_access ''a'' (snd (LFU_on_access ''a'' LFUPolicy_init)))) ''a''
      = Some 2"
    by (simp add: LFU_on_access_def LFU_set_freq_def defaultdict_getitem_def
        LFUPolicy_init_def od_setitem_def)
  show ?thesis using one two by auto
qed

section \<open>The LFU policy\<close>

lemma consistent_bucket:
  "LFU_consistent p \<Longrightarrow> freq_keys p f = Some b \<Longrightarrow>
     b \<noteq> [] \<and> distinct b \<and> (\<forall>k \<in> set b. key_freq p k = Some f)"
  unfolding LFU_consistent_def by blast

lemma consistent_key:
  "LFU_consistent p \<Longrightarrow> key_freq p k = Some f \<Longrightarrow>
     1 \<le> f \<and> (\<exists>b. freq_keys p f = Some b \<and> k \<in> set b)"
  unfolding LFU_consistent_def by blast

lemma consistentI:
  assumes "finite (dom (key_freq p))"
    and "\<And>f b. freq_keys p f = Some b \<Longrightarrow> b \<noteq> [] \<and> distinct b \<and> (\<forall>k \<in> set b. key_freq p k = Some f)"
    and "\<And>k f. key_freq p k = Some f \<Longrightarrow> 1 \<le> f \<and> (\<exists>b. freq_keys p f = Some b \<and> k \<in> set b)"
  shows "LFU_consistent p"
  unfolding LFU_consistent_def using assms by blast

lemma bucket_or_empty:
  assumes "LFU_consistent p"
  shows "distinct (case freq_keys p f of None \<Rightarrow> [] | Some b \<Rightarrow> b)
     \<and> (\<forall>k \<in> set (case freq_keys p f of None \<Rightarrow> [] | Some b \<Rightarrow> b). key_freq p k = Some f)"
proof (cases "freq_keys p f")
  case None
  then show ?thesis by simp
next
  case (Some b)
  with consistent_bucket[OF assms Some] show ?thesis by simp
qed

lemma LFU_on_access_new:
  assumes "key_freq p key = None"
  shows "LFU_on_access key p = (Inr (),
     p\<lparr>min_freq := 1, key_freq := (key_freq p)(key \<mapsto> 1),
       freq_keys := (freq_keys p)(1 \<mapsto> od_setitem key (case freq_keys p 1 of None \<Rightarrow> [] | Some b \<Rightarrow> b))\<rparr>)"
  using assms by (simp add: LFU_on_access_def LFU_set_freq_def defaultdict_getitem_def split: option.splits)

lemma LFU_on_access_new_inv:
  assumes c: "LFU_consistent p" and k: "key_freq p key = None" and r: "LFU_on_access key p = (r, p')"
  shows "r = Inr () \<and> LFU_consistent p' \<and> LFU_min_ok p'"
proof -
  define b1 where "b1 = (case freq_keys p 1 of None \<Rightarrow> [] | Some b \<Rightarrow> b)"
  have p': "p' = p\<lparr>min_freq := 1, key_freq := (key_freq p)(key \<mapsto> 1),
       freq_keys := (freq_keys p)(1 \<mapsto> b1 @ [key])\<rparr>" and r': "r = Inr ()"
  proof -
    have "key \<notin> set b1"
      using bucket_or_empty[OF c, of 1] k by (auto simp: b1_def)
    then show "p' = p\<lparr>min_freq := 1, key_freq := (key_freq p)(key \<mapsto> 1),
       freq_keys := (freq_keys p)(1 \<mapsto> b1 @ [key])\<rparr>" "r = Inr ()"
      using LFU_on_access_new[OF k] r by (auto simp: od_setitem_def b1_def)
  qed
  have b1: "distinct b1" "key \<notin> set b1" "\<forall>k\<in>set b1. key_freq p k = Some 1"
    using bucket_or_empty[OF c, of 1] k by (auto simp: b1_def)
  have "LFU_consistent p'"
  proof (rule consistentI)
    show "finite (dom (key_freq p'))" using c by (simp add: p' LFU_consistent_def)
  next
    fix f b assume "freq_keys p' f = Some b"
    then show "b \<noteq> [] \<and> distinct b \<and> (\<forall>k \<in> set b. key_freq p' k = Some f)"
      using b1 consistent_bucket[OF c, of f b] k by (auto simp: p' split: if_splits)
  next
    fix k' f assume "key_freq p' k' = Some f"
    then show "1 \<le> f \<and> (\<exists>b. freq_keys p' f = Some b \<and> k' \<in> set b)"
      using consistent_key[OF c, of k' f] by (auto simp: p' b1_def split: if_splits)
  qed
  moreover have "LFU_min_ok p'"
    unfolding LFU_min_ok_def using consistent_key[OF c] by (auto simp: p' split: if_splits)
  ultimately show ?thesis using r' by simp
qed

lemma LFU_on_access_old:
  assumes "key_freq p key = Some f" "freq_keys p f = Some b" "key \<in> set b"
  shows "LFU_on_access key p = (Inr (),
     (let fk1 = (if remove1 key b = [] then (freq_keys p)(f := None) else (freq_keys p)(f \<mapsto> remove1 key b))
      in p\<lparr>min_freq := (if remove1 key b = [] \<and> min_freq p = f then f + 1 else min_freq p),
           key_freq := (key_freq p)(key \<mapsto> f + 1),
           freq_keys := fk1(f + 1 \<mapsto> od_setitem key (case fk1 (f + 1) of None \<Rightarrow> [] | Some b' \<Rightarrow> b'))\<rparr>))"
  using assms
  by (auto simp: LFU_on_access_def LFU_set_freq_def defaultdict_getitem_def Let_def split: option.splits)

lemma LFU_on_access_old_inv:
  assumes c: "LFU_consistent p" and m: "LFU_min_ok p" and k: "key_freq p key = Some f"
    and r: "LFU_on_access key p = (r, p')"
  shows "r = Inr () \<and> LFU_consistent p' \<and> LFU_min_ok p'"
proof -
  from consistent_key[OF c k] obtain b where b: "freq_keys p f = Some b" "key \<in> set b" and f1: "1 \<le> f"
    by blast
  from consistent_bucket[OF c b(1)] have bd: "distinct b" "\<forall>k\<in>set b. key_freq p k = Some f" by auto
  define b2 where "b2 = (case freq_keys p (f + 1) of None \<Rightarrow> [] | Some b' \<Rightarrow> b')"
  have b2: "distinct b2" "key \<notin> set b2" "\<forall>k\<in>set b2. key_freq p k = Some (f + 1)"
    using bucket_or_empty[OF c, of "f + 1"] k by (auto simp: b2_def)
  define fk1 where "fk1 = (if remove1 key b = [] then (freq_keys p)(f := None) else (freq_keys p)(f \<mapsto> remove1 key b))"
  have fk1: "(case fk1 (f + 1) of None \<Rightarrow> [] | Some b' \<Rightarrow> b') = b2"
    by (simp add: fk1_def b2_def)
  have p': "p' = p\<lparr>min_freq := (if remove1 key b = [] \<and> min_freq p = f then f + 1 else min_freq p),
           key_freq := (key_freq p)(key \<mapsto> f + 1),
           freq_keys := fk1(f + 1 \<mapsto> b2 @ [key])\<rparr>" and r': "r = Inr ()"
    using LFU_on_access_old[OF k b] r b2(2) fk1 by (auto simp: Let_def fk1_def[symmetric] od_setitem_def)
  have rem: "set (remove1 key b) = set b - {key}" using bd(1) by simp
  have "LFU_consistent p'"
  proof (rule consistentI)
    show "finite (dom (key_freq p'))" using c by (simp add: p' LFU_consistent_def)
  next
    fix g b' assume g: "freq_keys p' g = Some b'"
    consider "g = f + 1" | "g = f" | "g \<noteq> f + 1" "g \<noteq> f" by blast
    then show "b' \<noteq> [] \<and> distinct b' \<and> (\<forall>k \<in> set b'. key_freq p' k = Some g)"
    proof cases
      case 1
      with g have "b' = b2 @ [key]" by (simp add: p')
      with 1 b2 show ?thesis by (auto simp: p')
    next
      case 2
      with g have "b' = remove1 key b" "remove1 key b \<noteq> []"
        by (auto simp: p' fk1_def split: if_splits)
      with 2 bd rem show ?thesis by (auto simp: p')
    next
      case 3
      with g have old: "freq_keys p g = Some b'" by (auto simp: p' fk1_def split: if_splits)
      from consistent_bucket[OF c old] 3 k show ?thesis by (auto simp: p')
    qed
  next
    fix k' g assume kg: "key_freq p' k' = Some g"
    show "1 \<le> g \<and> (\<exists>b'. freq_keys p' g = Some b' \<and> k' \<in> set b')"
    proof (cases "k' = key")
      case True
      with kg f1 show ?thesis by (auto simp: p')
    next
      case False
      with kg have old: "key_freq p k' = Some g" by (simp add: p')
      from consistent_key[OF c old] obtain b' where b': "1 \<le> g" "freq_keys p g = Some b'" "k' \<in> set b'"
        by blast
      consider "g = f + 1" | "g = f" | "g \<noteq> f + 1" "g \<noteq> f" by blast
      then show ?thesis
      proof cases
        case 1
        with b' have "k' \<in> set b2" by (simp add: b2_def)
        with 1 b'(1) show ?thesis by (simp add: p')
      next
        case 2
        with b' b have "k' \<in> set (remove1 key b)" using False rem by simp
        then have "remove1 key b \<noteq> []" by auto
        with 2 b'(1) \<open>k' \<in> set (remove1 key b)\<close> show ?thesis by (simp add: p' fk1_def)
      next
        case 3
        with b' show ?thesis by (simp add: p' fk1_def)
      qed
    qed
  qed
  moreover have "LFU_min_ok p'"
  proof -
    from m k obtain k0 where k0: "key_freq p k0 = Some (min_freq p)"
      and low: "\<And>k g. key_freq p k = Some g \<Longrightarrow> min_freq p \<le> g"
      by (auto simp: LFU_min_ok_def)
    consider (emptied) "remove1 key b = []" "min_freq p = f"
      | (shared) "remove1 key b \<noteq> []" "min_freq p = f"
      | (other) "min_freq p \<noteq> f" by blast
    then show ?thesis
    proof cases
      case emptied
      have only: "g \<ge> f + 1" if "key_freq p k' = Some g" "k' \<noteq> key" for k' g
      proof -
        from consistent_key[OF c that(1)] obtain b' where "freq_keys p g = Some b'" "k' \<in> set b'"
          by blast
        with b emptied(1) rem that(2) have "g \<noteq> f" by auto
        with low[OF that(1)] emptied(2) show ?thesis by simp
      qed
      show ?thesis unfolding LFU_min_ok_def using emptied only
        by (auto simp: p' split: if_splits)
    next
      case shared
      then obtain k' where "k' \<in> set b" "k' \<noteq> key" using rem by (cases "remove1 key b") auto
      with bd have "key_freq p k' = Some f" by simp
      with shared \<open>k' \<noteq> key\<close> low k show ?thesis unfolding LFU_min_ok_def
        by (fastforce simp: p' split: if_splits)
    next
      case other
      with k0 k have "k0 \<noteq> key" by auto
      with other k0 low k show ?thesis unfolding LFU_min_ok_def
        by (fastforce simp: p' split: if_splits)
    qed
  qed
  ultimately show ?thesis using r' by simp
qed

lemma LFU_on_access_inv:
  assumes "LFU_consistent p" "LFU_min_ok p"
  shows "fst (LFU_on_access key p) = Inr () \<and> LFU_consistent (snd (LFU_on_access key p))
     \<and> LFU_min_ok (snd (LFU_on_access key p))"
proof (cases "key_freq p key")
  case None
  from LFU_on_access_new_inv[OF assms(1) None, of "fst (LFU_on_access key p)" "snd (LFU_on_access key p)"]
  show ?thesis by simp
next
  case (Some f)
  from LFU_on_access_old_inv[OF assms Some, of "fst (LFU_on_access key p)" "snd (LFU_on_access key p)"]
  show ?thesis by simp
qed

lemma LFU_evict_nonempty:
  assumes c: "LFU_consistent p" and m: "LFU_min_ok p" and False: "dom (key_freq p) \<noteq> {}"
  shows "\<exists>victim. fst (LFU_evict p) = Inr (Some victim) \<and> victim \<in> dom (key_freq p)
     \<and> key_freq (snd (LFU_evict p)) = (key_freq p)(victim := None)
     \<and> LFU_consistent (snd (LFU_evict p))"
proof -
  from False m obtain k0 where k0: "key_freq p k0 = Some (min_freq p)" by (auto simp: LFU_min_ok_def)
  from consistent_key[OF c k0] obtain b where b: "freq_keys p (min_freq p) = Some b" "k0 \<in> set b"
    by blast
  then obtain victim rest where vr: "b = victim # rest" by (cases b) auto
  from consistent_bucket[OF c b(1)] vr have v: "key_freq p victim = Some (min_freq p)"
    and rest: "distinct rest" "victim \<notin> set rest" "\<forall>k\<in>set rest. key_freq p k = Some (min_freq p)"
    by auto
  define p' where "p' = p\<lparr>freq_keys := (if rest = [] then (freq_keys p)(min_freq p := None)
       else (freq_keys p)(min_freq p \<mapsto> rest)), key_freq := (key_freq p)(victim := None)\<rparr>"
  have ev: "LFU_evict p = (Inr (Some victim), p')"
    using False b(1) vr v by (simp add: LFU_evict_def defaultdict_getitem_def p'_def Let_def domI)
  have "LFU_consistent p'"
  proof (rule consistentI)
    show "finite (dom (key_freq p'))" using c by (simp add: p'_def LFU_consistent_def)
  next
    fix g b' assume g: "freq_keys p' g = Some b'"
    show "b' \<noteq> [] \<and> distinct b' \<and> (\<forall>k \<in> set b'. key_freq p' k = Some g)"
    proof (cases "g = min_freq p")
      case True
      with g have "b' = rest" "rest \<noteq> []" by (auto simp: p'_def split: if_splits)
      with True rest show ?thesis by (auto simp: p'_def)
    next
      case False
      with g have old: "freq_keys p g = Some b'" by (auto simp: p'_def split: if_splits)
      from consistent_bucket[OF c old] False v show ?thesis by (auto simp: p'_def)
    qed
  next
    fix k' g assume kg: "key_freq p' k' = Some g"
    then have ne: "k' \<noteq> victim" and old: "key_freq p k' = Some g"
      by (auto simp: p'_def split: if_splits)
    from consistent_key[OF c old] obtain b' where b': "1 \<le> g" "freq_keys p g = Some b'" "k' \<in> set b'"
      by blast
    show "1 \<le> g \<and> (\<exists>b'. freq_keys p' g = Some b' \<and> k' \<in> set b')"
    proof (cases "g = min_freq p")
      case True
      with b' b vr ne have "k' \<in> set rest" by auto
      then have "rest \<noteq> []" by auto
      with True b'(1) \<open>k' \<in> set rest\<close> show ?thesis by (simp add: p'_def)
    next
      case False
      with b' show ?thesis by (simp add: p'_def)
    qed
  qed
  with ev v show ?thesis by (auto simp: p'_def)
qed

lemma LFU_evict_inv:
  assumes c: "LFU_consistent p" and m: "LFU_min_ok p"
  shows "LFU_consistent (snd (LFU_evict p))"
proof (cases "dom (key_freq p) = {}")
  case True
  with c show ?thesis by (simp add: LFU_evict_def)
next
  case False
  from LFU_evict_nonempty[OF c m False] show ?thesis by blast
qed

lemma LFU_init_inv: "LFU_consistent LFUPolicy_init \<and> LFU_min_ok LFUPolicy_init"
  by (simp add: LFU_consistent_def LFU_min_ok_def LFUPolicy_init_def)

lemma LFU_reachable_inv: "LFU_reachable p \<Longrightarrow> LFU_consistent p \<and> LFU_min_ok p"
proof (induction rule: LFU_reachable.induct)
  case new
  show ?case by (rule LFU_init_inv)
next
  case (touch p key)
  then show ?case using LFU_on_access_inv[of p key] by simp
next
  case (replace p key)
  then have c: "LFU_consistent (snd (LFU_evict p))" using LFU_evict_inv by blast
  from replace(2) have "key_freq (snd (LFU_evict p)) key = None" by auto
  from LFU_on_access_new_inv[OF c this, of "fst (LFU_on_access key (snd (LFU_evict p)))"
      "snd (LFU_on_access key (snd (LFU_evict p)))"]
  show ?case by simp
qed

text \<open>
  Calls that return normally keep every bucket non-empty, whatever the rest of the state
  is; and every state of \<open>LFU_reachable\<close> is the end of such a run.
\<close>

lemma LFU_set_freq_buckets:
  assumes "\<forall>g bucket. g \<noteq> f \<longrightarrow> freq_keys p g = Some bucket \<longrightarrow> bucket \<noteq> []"
  shows "buckets_nonempty (LFU_set_freq key f p)"
  using assms
  by (auto simp: buckets_nonempty_def LFU_set_freq_def defaultdict_getitem_def od_setitem_def
      split: option.splits if_splits)

lemma LFU_on_access_buckets:
  assumes b: "buckets_nonempty p" and r: "LFU_on_access key p = (Inr u, p')"
  shows "buckets_nonempty p'"
proof (cases "key_freq p key")
  case None
  with r have "p' = LFU_set_freq key 1 (p\<lparr>min_freq := 1\<rparr>)" by (simp add: LFU_on_access_def)
  moreover have "buckets_nonempty (LFU_set_freq key 1 (p\<lparr>min_freq := 1\<rparr>))"
    using b by (intro LFU_set_freq_buckets) (auto simp: buckets_nonempty_def)
  ultimately show ?thesis by simp
next
  case (Some old_freq)
  show ?thesis
  proof (cases "freq_keys p old_freq")
    case None
    with Some r show ?thesis by (simp add: LFU_on_access_def defaultdict_getitem_def)
  next
    case (Some bucket)
    define p1 where "p1 = (if remove1 key bucket = []
       then p\<lparr>freq_keys := (freq_keys p)(old_freq := None),
              min_freq := (if min_freq p = old_freq then min_freq p + 1 else min_freq p)\<rparr>
       else p\<lparr>freq_keys := (freq_keys p)(old_freq \<mapsto> remove1 key bucket)\<rparr>)"
    from \<open>key_freq p key = Some old_freq\<close> Some r
    have p': "p' = LFU_set_freq key (old_freq + 1) p1"
      by (auto simp: LFU_on_access_def defaultdict_getitem_def Let_def p1_def split: if_splits)
    have "buckets_nonempty p1" using b by (auto simp: buckets_nonempty_def p1_def split: if_splits)
    then have "buckets_nonempty (LFU_set_freq key (old_freq + 1) p1)"
      by (intro LFU_set_freq_buckets) (auto simp: buckets_nonempty_def)
    with p' show ?thesis by simp
  qed
qed

lemma LFU_evict_buckets:
  assumes b: "buckets_nonempty p" and r: "LFU_evict p = (Inr u, p')"
  shows "buckets_nonempty p'"
proof (cases "dom (key_freq p) = {}")
  case True
  with r b show ?thesis by (simp add: LFU_evict_def)
next
  case False
  show ?thesis
  proof (cases "freq_keys p (min_freq p)")
    case None
    with False r show ?thesis by (simp add: LFU_evict_def defaultdict_getitem_def)
  next
    case (Some bucket)
    from b Some obtain victim rest where vr: "bucket = victim # rest"
      by (cases bucket) (auto simp: buckets_nonempty_def)
    from False Some vr r
    have "freq_keys p' = (if rest = [] then (freq_keys p)(min_freq p := None)
       else (freq_keys p)(min_freq p \<mapsto> rest))"
      by (auto simp: LFU_evict_def defaultdict_getitem_def Let_def split: if_splits)
    with b show ?thesis unfolding buckets_nonempty_def by (simp split: if_splits)
  qed
qed

lemma LFU_call_buckets: "buckets_nonempty p \<Longrightarrow> LFU_call c p = Some p' \<Longrightarrow> buckets_nonempty p'"
  by (cases c) (auto split: prod.splits sum.splits dest: LFU_on_access_buckets LFU_evict_buckets)

lemma LFU_run_buckets: "buckets_nonempty p \<Longrightarrow> LFU_run calls p = Some p' \<Longrightarrow> buckets_nonempty p'"
  by (induction calls arbitrary: p) (auto split: option.splits dest: LFU_call_buckets)

lemma LFU_run_append:
  "LFU_run (cs @ ds) p = (case LFU_run cs p of None \<Rightarrow> None | Some p' \<Rightarrow> LFU_run ds p')"
  by (induction cs arbitrary: p) (auto split: option.splits)

lemma LFU_evict_returns:
  assumes "LFU_consistent p" "LFU_min_ok p"
  shows "\<exists>victim. fst (LFU_evict p) = Inr victim"
proof (cases "dom (key_freq p) = {}")
  case True
  then show ?thesis by (simp add: LFU_evict_def)
next
  case False
  from LFU_evict_nonempty[OF assms False] show ?thesis by blast
qed

lemma LFU_reachable_run: "LFU_reachable p \<Longrightarrow> \<exists>calls. LFU_run calls LFUPolicy_init = Some p"
proof (induction rule: LFU_reachable.induct)
  case new
  have "LFU_run [] LFUPolicy_init = Some LFUPolicy_init" by simp
  then show ?case by blast
next
  case (touch p key)
  then obtain calls where c: "LFU_run calls LFUPolicy_init = Some p" by blast
  from LFU_reachable_inv[OF touch(1)] LFU_on_access_inv[of p key]
  have "fst (LFU_on_access key p) = Inr ()" by simp
  then have "LFU_call (OnAccess key) p = Some (snd (LFU_on_access key p))"
    by (cases "LFU_on_access key p") auto
  with c have "LFU_run (calls @ [OnAccess key]) LFUPolicy_init = Some (snd (LFU_on_access key p))"
    by (simp add: LFU_run_append)
  then show ?case by blast
next
  case (replace p key)
  then obtain calls where c: "LFU_run calls LFUPolicy_init = Some p" by blast
  from LFU_reachable_inv[OF replace(1)] have inv: "LFU_consistent p" "LFU_min_ok p" by auto
  from LFU_evict_returns[OF inv] have e: "LFU_call Evict p = Some (snd (LFU_evict p))"
    by (cases "LFU_evict p") auto
  from LFU_evict_inv[OF inv] have c1: "LFU_consistent (snd (LFU_evict p))" .
  from replace(2) have "key_freq (snd (LFU_evict p)) key = None" by auto
  from LFU_on_access_new_inv[OF c1 this, of "fst (LFU_on_access key (snd (LFU_evict p)))"
      "snd (LFU_on_access key (snd (LFU_evict p)))"]
  have "LFU_call (OnAccess key) (snd (LFU_evict p)) = Some (snd (LFU_on_access key (snd (LFU_evict p))))"
    by (cases "LFU_on_access key (snd (LFU_evict p))") auto
  with c e have "LFU_run (calls @ [Evict, OnAccess key]) LFUPolicy_init
      = Some (snd (LFU_on_access key (snd (LFU_evict p))))"
    by (simp add: LFU_run_append)
  then show ?case by blast
qed

lemmas lfu_eval = LFU_on_access_def LFU_evict_def LFU_set_freq_def
  defaultdict_getitem_def LFUPolicy_init_def od_setitem_def

text \<open>
  C6 (amended). Every bucket present in \<open>freq_keys\<close> is non-empty in every state that
  the LFU policy reaches from a new policy by \<open>on_access\<close> and \<open>evict\<close> calls that return
  normally, in any order. And \<open>min_freq\<close> equals the minimum of \<open>key_freq.values()\<close>,
  whenever \<open>key_freq\<close> is non-empty, in every state reached from a new policy by
  \<open>on_access\<close> calls and by \<open>evict\<close> calls that are each followed at once by \<open>on_access\<close>
  of a key the policy does not track.
\<close>

theorem LFU_min_freq_is_minimum:
  "(LFU_reachable p \<longrightarrow> dom (key_freq p) \<noteq> {} \<longrightarrow> min_freq p = Min (ran (key_freq p)))
   \<and> (LFU_run calls LFUPolicy_init = Some q \<longrightarrow>
        (\<forall>f bucket. freq_keys q f = Some bucket \<longrightarrow> bucket \<noteq> []))"
proof (intro conjI impI)
  assume r: "LFU_reachable p" and ne: "dom (key_freq p) \<noteq> {}"
  from LFU_reachable_inv[OF r] have c: "LFU_consistent p" and m: "LFU_min_ok p" by auto
  from m ne obtain k where k: "key_freq p k = Some (min_freq p)"
    and low: "\<And>k g. key_freq p k = Some g \<Longrightarrow> min_freq p \<le> g"
    by (auto simp: LFU_min_ok_def)
  have "finite (ran (key_freq p))" using c by (auto simp: LFU_consistent_def intro: finite_ran)
  moreover have "min_freq p \<in> ran (key_freq p)" using k by (auto simp: ran_def)
  moreover have "\<And>g. g \<in> ran (key_freq p) \<Longrightarrow> min_freq p \<le> g" using low by (auto simp: ran_def)
  ultimately show "min_freq p = Min (ran (key_freq p))"
    using Min_eqI[of "ran (key_freq p)" "min_freq p"] by simp
next
  assume "LFU_run calls LFUPolicy_init = Some q"
  moreover have "buckets_nonempty LFUPolicy_init"
    by (simp add: buckets_nonempty_def LFUPolicy_init_def)
  ultimately have "buckets_nonempty q" by (rule LFU_run_buckets[rotated])
  then show "\<forall>f bucket. freq_keys q f = Some bucket \<longrightarrow> bucket \<noteq> []"
    by (simp add: buckets_nonempty_def)
qed

text \<open>
  An instance of each half: the replacement run for \<open>min_freq\<close>, and for the buckets the
  run that ends with an \<open>evict\<close>, in which \<open>min_freq\<close> is stale.
\<close>

theorem LFU_min_freq_is_minimum_witness:
  "LFU_reachable LFU_replace_example
   \<and> dom (key_freq LFU_replace_example) \<noteq> {}
   \<and> min_freq LFU_replace_example = Min (ran (key_freq LFU_replace_example))
   \<and> min_freq LFU_replace_example = 1
   \<and> freq_keys LFU_replace_example 1 = Some [''c'']
   \<and> LFU_run [OnAccess ''a'', OnAccess ''a'', OnAccess ''b'', Evict] LFUPolicy_init
       = Some LFU_stale_example
   \<and> freq_keys LFU_stale_example 2 = Some [''a'']
   \<and> freq_keys LFU_stale_example 1 \<noteq> Some []"
proof -
  let ?p = "snd (LFU_on_access ''a'' (snd (LFU_on_access ''b'' (snd (LFU_on_access ''a''
       (LFUPolicy_init :: string LFUPolicy))))))"
  have "LFU_reachable ?p" by (intro LFU_reachable.touch LFU_reachable.new)
  moreover have "''c'' \<notin> dom (key_freq (snd (LFU_evict ?p)))"
    by (simp add: lfu_eval)
  ultimately have r: "LFU_reachable LFU_replace_example"
    unfolding LFU_replace_example_def by (rule LFU_reachable.replace)
  have ne: "dom (key_freq LFU_replace_example) \<noteq> {}"
    by (simp add: LFU_replace_example_def lfu_eval)
  have mf: "min_freq LFU_replace_example = 1"
    by (simp add: LFU_replace_example_def lfu_eval)
  have fk: "freq_keys LFU_replace_example 1 = Some [''c'']"
    by (simp add: LFU_replace_example_def lfu_eval)
  have run: "LFU_run [OnAccess ''a'', OnAccess ''a'', OnAccess ''b'', Evict] LFUPolicy_init
       = Some LFU_stale_example"
    by (simp add: LFU_stale_example_def lfu_eval)
  have fk2: "freq_keys LFU_stale_example 2 = Some [''a'']"
    by (simp add: LFU_stale_example_def lfu_eval)
  from LFU_min_freq_is_minimum[of LFU_replace_example
      "[OnAccess ''a'', OnAccess ''a'', OnAccess ''b'', Evict]" LFU_stale_example] r ne run
  have "min_freq LFU_replace_example = Min (ran (key_freq LFU_replace_example))"
    and "freq_keys LFU_stale_example 1 \<noteq> Some []" by blast+
  with r ne mf fk run fk2 show ?thesis by simp
qed

text \<open>
  The invariant on buckets is stated for calls that return normally. In the state of the
  run above a further \<open>evict\<close> reads the bucket of the stale \<open>min_freq\<close>, which the
  \<open>defaultdict\<close> creates empty, and raises from \<open>popitem\<close>; the empty bucket stays.
\<close>

lemma empty_bucket_after_raising_evict:
  "fst (LFU_evict LFU_stale_example) = Inl KeyError
   \<and> freq_keys (snd (LFU_evict LFU_stale_example)) 1 = Some []"
  by (simp add: LFU_stale_example_def lfu_eval)

text \<open>
  C6 as stated fails in the state right after an \<open>evict\<close> that empties the bucket of
  \<open>min_freq\<close>: \<open>evict\<close> leaves \<open>min_freq\<close> as it is. After \<open>on_access(a)\<close>,
  \<open>on_access(a)\<close>, \<open>on_access(b)\<close>, \<open>evict()\<close> the only key is \<open>a\<close> with frequency 2 and
  \<open>min_freq\<close> is still 1.
\<close>

theorem LFU_min_freq_stale_after_evict:
  "dom (key_freq LFU_stale_example) \<noteq> {}
   \<and> min_freq LFU_stale_example \<noteq> Min (ran (key_freq LFU_stale_example))"
proof -
  have kf: "key_freq LFU_stale_example = [''a'' \<mapsto> 2]"
    by (rule ext) (simp add: LFU_stale_example_def LFU_on_access_def LFU_evict_def LFU_set_freq_def
      defaultdict_getitem_def LFUPolicy_init_def od_setitem_def)
  have mf: "min_freq LFU_stale_example = 1"
    by (simp add: LFU_stale_example_def LFU_on_access_def LFU_evict_def LFU_set_freq_def
      defaultdict_getitem_def LFUPolicy_init_def od_setitem_def)
  show ?thesis unfolding kf mf by simp
qed

section \<open>The cache node\<close>

lemmas node_defs =
  RobustCache_put_def RobustCache_get_def RobustCache_init_def put_internal_def make_room_def
  get_lookup_def load_from_source_def DatabaseLoader_load_def truthy_def
  LRU_on_access_def LRU_evict_def LRUPolicy_init_def
  do_enter_def do_wait_def do_store_def do_finally_def RequestCoalescer_init_def

lemmas sys_defs = sys_step_def node_defs FlakyDB_def

text \<open>
  C1 fails on the code. A node of capacity 1 takes \<open>put("", "x")\<close> and then
  \<open>put("a", "y")\<close>; both return normally. The second finds the node full and calls
  \<open>evict\<close>, which returns the victim \<open>""\<close>; \<open>if victim:\<close> is false for the empty string,
  so the victim stays in storage, and storage ends with two entries.
\<close>

theorem capacity_exceeded_after_empty_key:
  "fst (RobustCache_put MockDB [] ''x''
          (RobustCache_init 1 (LRU LRUPolicy_init) None None, Map.empty :: string \<rightharpoonup> string))
     = Inr ()
   \<and> fst (RobustCache_put MockDB ''a'' ''y''
          (snd (RobustCache_put MockDB [] ''x''
             (RobustCache_init 1 (LRU LRUPolicy_init) None None, Map.empty :: string \<rightharpoonup> string))))
     = Inr ()
   \<and> capacity (fst falsy_key_node) = 1
   \<and> card (dom (storage (fst falsy_key_node))) = 2"
  by (simp add: falsy_key_node_def node_defs Let_def)

text \<open>
  C2 fails on the code, in the same run: the policy has dropped the empty key, storage
  still holds it.
\<close>

theorem storage_and_policy_differ_after_empty_key:
  "dom (storage (fst falsy_key_node)) = {[], ''a''}
   \<and> policy_keys (eviction (fst falsy_key_node)) = {''a''}
   \<and> dom (storage (fst falsy_key_node)) \<noteq> policy_keys (eviction (fst falsy_key_node))"
  by (auto simp: falsy_key_node_def node_defs Let_def)



section \<open>The node with non-empty keys\<close>

text \<open>
  The two node invariants of the specification do hold as long as no key is the empty
  string, the one key whose truth value is false: then \<open>if victim:\<close> is true for every
  victim. The lemmas follow \<open>_put_internal\<close> through its three cases (key resident,
  room left, node full).
\<close>

lemma policy_inv_weak: "policy_inv p \<Longrightarrow> policy_weak p"
  by (cases p) auto

lemma LFU_on_access_keys:
  assumes "LFU_consistent p" "LFU_on_access key p = (r, p')" "r = Inr ()"
  shows "dom (key_freq p') = insert key (dom (key_freq p))"
proof (cases "key_freq p key")
  case None
  from LFU_on_access_new[OF None] assms(2) show ?thesis by auto
next
  case (Some f)
  from consistent_key[OF assms(1) Some] obtain b where "freq_keys p f = Some b" "key \<in> set b" by blast
  from LFU_on_access_old[OF Some this] assms(2) show ?thesis by (auto simp: Let_def)
qed

lemma on_access_new_key:
  assumes "policy_weak p" "key \<notin> policy_keys p" "EvictionPolicy_on_access key p = (r, p')"
  shows "r = Inr () \<and> policy_inv p' \<and> policy_keys p' = insert key (policy_keys p)"
proof (cases p)
  case (LRU q)
  with assms show ?thesis by (auto simp: LRU_on_access_def)
next
  case (LFU q)
  with assms obtain q' where q': "LFU_on_access key q = (r, q')" "p' = LFU q'"
    by (auto split: prod.splits)
  from assms LFU have c: "LFU_consistent q" and k: "key_freq q key = None" by auto
  from LFU_on_access_new_inv[OF c k q'(1)] LFU_on_access_keys[OF c q'(1)] q'(2) LFU
  show ?thesis by simp
qed

lemma on_access_any_key:
  assumes "policy_inv p" "EvictionPolicy_on_access key p = (r, p')"
  shows "r = Inr () \<and> policy_inv p' \<and> policy_keys p' = insert key (policy_keys p)"
proof (cases p)
  case (LRU q)
  with assms show ?thesis by (auto simp: LRU_on_access_def split: if_splits)
next
  case (LFU q)
  with assms obtain q' where q': "LFU_on_access key q = (r, q')" "p' = LFU q'"
    by (auto split: prod.splits)
  from assms LFU have c: "LFU_consistent q" and m: "LFU_min_ok q" by auto
  from LFU_on_access_inv[OF c m, of key] q'(1) have "r = Inr () \<and> LFU_consistent q' \<and> LFU_min_ok q'"
    by simp
  with LFU_on_access_keys[OF c q'(1)] q'(2) LFU show ?thesis by simp
qed

lemma evict_nonempty:
  assumes "policy_inv p" "policy_keys p \<noteq> {}" "EvictionPolicy_evict p = (r, p')"
  shows "\<exists>victim. r = Inr (Some victim) \<and> victim \<in> policy_keys p
     \<and> policy_keys p' = policy_keys p - {victim} \<and> policy_weak p'"
proof (cases p)
  case (LRU q)
  with assms show ?thesis by (cases "order q") (auto simp: LRU_evict_def)
next
  case (LFU q)
  with assms have c: "LFU_consistent q" and m: "LFU_min_ok q" and ne: "dom (key_freq q) \<noteq> {}"
    by auto
  from LFU assms(3) have r: "r = fst (LFU_evict q)" and p': "p' = LFU (snd (LFU_evict q))"
    by (auto split: prod.splits)
  from LFU_evict_nonempty[OF c m ne] r p' LFU show ?thesis by auto
qed

lemma put_internal_inv:
  assumes inv: "node_inv n" and key: "key \<noteq> []" and put: "put_internal key val n = (r, n')"
  shows "r = Inr () \<and> node_inv n' \<and> storage n' key = Some val \<and> coalescer n' = coalescer n
     \<and> loader n' = loader n \<and> writer n' = writer n \<and> capacity n' = capacity n"
proof (cases "key \<notin> dom (storage n) \<and> capacity n \<le> int (card (dom (storage n)))")
  case False
  obtain r1 p1 where oa: "EvictionPolicy_on_access key (eviction n) = (r1, p1)" by fastforce
  from inv have pi: "policy_inv (eviction n)" by (simp add: node_inv_def)
  from on_access_any_key[OF pi oa] have r1: "r1 = Inr ()" and p1: "policy_inv p1"
    and k1: "policy_keys p1 = insert key (policy_keys (eviction n))" by auto
  have n': "n' = n\<lparr>storage := (storage n)(key \<mapsto> val), eviction := p1\<rparr>" and r: "r = r1"
    using put False oa by (auto simp: put_internal_def Let_def)
  have "int (card (insert key (dom (storage n)))) \<le> capacity n"
  proof (cases "key \<in> dom (storage n)")
    case True
    then have "insert key (dom (storage n)) = dom (storage n)" by auto
    with inv show ?thesis by (simp add: node_inv_def)
  next
    case nk: False
    with False have "int (card (dom (storage n))) < capacity n" by simp
    moreover have "card (insert key (dom (storage n))) = Suc (card (dom (storage n)))"
      using inv nk by (simp add: node_inv_def)
    ultimately show ?thesis by simp
  qed
  with inv p1 k1 key have "node_inv n'" by (auto simp: node_inv_def n')
  with r r1 show ?thesis by (simp add: n')
next
  case True
  from inv have pi: "policy_inv (eviction n)" and keys: "policy_keys (eviction n) = dom (storage n)"
    and fin: "finite (dom (storage n))" and cap: "1 \<le> capacity n"
    and le: "int (card (dom (storage n))) \<le> capacity n" and nil: "[] \<notin> dom (storage n)"
    by (simp_all add: node_inv_def)
  from True cap have "card (dom (storage n)) \<noteq> 0" by auto
  then have ne: "policy_keys (eviction n) \<noteq> {}" using keys by auto
  obtain r0 p0 where ev: "EvictionPolicy_evict (eviction n) = (r0, p0)" by fastforce
  from evict_nonempty[OF pi ne ev] obtain victim where r0: "r0 = Inr (Some victim)"
    and v: "victim \<in> dom (storage n)" and k0: "policy_keys p0 = dom (storage n) - {victim}"
    and w0: "policy_weak p0" using keys by auto
  from v nil have vt: "truthy victim" by (auto simp: truthy_def)
  define n1 where "n1 = n\<lparr>eviction := p0, storage := (storage n)(victim := None)\<rparr>"
  have mr: "make_room n = (Inr (), n1)"
    using ev r0 v vt by (simp add: make_room_def n1_def)
  obtain r1 p1 where oa: "EvictionPolicy_on_access key p0 = (r1, p1)" by fastforce
  from True k0 have "key \<notin> policy_keys p0" by auto
  from on_access_new_key[OF w0 this oa] have r1: "r1 = Inr ()" and p1: "policy_inv p1"
    and k1: "policy_keys p1 = insert key (policy_keys p0)" by auto
  have n': "n' = n1\<lparr>storage := (storage n1)(key \<mapsto> val), eviction := p1\<rparr>" and r: "r = r1"
    using put True mr oa by (auto simp: put_internal_def Let_def n1_def)
  have d': "dom (storage n') = insert key (dom (storage n) - {victim})"
    by (auto simp: n' n1_def)
  have "card (insert key (dom (storage n) - {victim})) = card (dom (storage n))"
  proof -
    have "key \<notin> dom (storage n) - {victim}" using True by auto
    then have "card (insert key (dom (storage n) - {victim})) = Suc (card (dom (storage n) - {victim}))"
      using fin by simp
    also have "\<dots> = card (dom (storage n))"
      using fin v by (rule card_Suc_Diff1)
    finally show ?thesis .
  qed
  with le have "int (card (dom (storage n'))) \<le> capacity n" by (simp add: d')
  moreover have "policy_keys (eviction n') = dom (storage n')" using k1 k0 d' by (simp add: n' n1_def)
  moreover have "[] \<notin> dom (storage n')" using nil key by (auto simp: d')
  moreover have "finite (dom (storage n'))" using fin by (simp add: d')
  ultimately have "node_inv n'" using cap p1 by (simp add: node_inv_def n' n1_def)
  with r r1 show ?thesis by (simp add: n' n1_def)
qed

lemma put_inv:
  assumes inv: "node_inv n" and key: "key \<noteq> []"
  shows "node_inv (fst (snd (RobustCache_put db key val (n, d))))
     \<and> coalescer (fst (snd (RobustCache_put db key val (n, d)))) = coalescer n"
proof (cases "writer n")
  case None
  obtain r n' where p: "put_internal key val n = (r, n')" by fastforce
  from put_internal_inv[OF inv key p] None p show ?thesis by (simp add: RobustCache_put_def)
next
  case (Some w)
  obtain r w' d' where wr: "CacheWriter_write db key val (w, d) = (r, (w', d'))"
    by (metis prod.exhaust)
  have inv': "node_inv (n\<lparr>writer := Some w'\<rparr>)" using inv by (simp add: node_inv_def)
  show ?thesis
  proof (cases r)
    case (Inl e)
    with Some wr inv' show ?thesis by (simp add: RobustCache_put_def)
  next
    case (Inr u)
    obtain r2 n' where p: "put_internal key val (n\<lparr>writer := Some w'\<rparr>) = (r2, n')" by fastforce
    from put_internal_inv[OF inv' key p] Some wr Inr p show ?thesis by (simp add: RobustCache_put_def)
  qed
qed

lemma get_inv:
  assumes inv: "node_inv n" and i: "idle n" and key: "key \<noteq> []"
  shows "\<exists>outcome n' d'. RobustCache_get db key (n, d) = Some (outcome, (n', d'))
     \<and> node_inv n' \<and> idle n'"
proof (cases "key \<in> dom (storage n)")
  case True
  obtain r1 p1 where oa: "EvictionPolicy_on_access key (eviction n) = (r1, p1)" by fastforce
  from inv have pi: "policy_inv (eviction n)" and keys: "policy_keys (eviction n) = dom (storage n)"
    by (simp_all add: node_inv_def)
  from on_access_any_key[OF pi oa] True keys have "r1 = Inr ()" "policy_inv p1"
    "policy_keys p1 = dom (storage n)" by auto
  with inv i True oa show ?thesis
    by (auto simp: RobustCache_get_def get_lookup_def node_inv_def idle_def)
next
  case False
  show ?thesis
  proof (cases "loader n")
    case None
    with False inv i show ?thesis by (simp add: RobustCache_get_def get_lookup_def)
  next
    case (Some l)
    define c' where "c' = (coalescer n)\<lparr>event_flags := event_flags (coalescer n) @ [False],
       active_requests := (active_requests (coalescer n))(key \<mapsto> length (event_flags (coalescer n)))\<rparr>"
    have enter: "do_enter key (coalescer n) = (False, length (event_flags (coalescer n)), c')"
      using i by (simp add: do_enter_def idle_def c'_def Let_def)
    define n1 where "n1 = n\<lparr>coalescer := c'\<rparr>"
    have inv1: "node_inv n1" using inv by (simp add: node_inv_def n1_def)
    obtain out n2 d2 where ld: "load_from_source db key (n1, d) = (out, (n2, d2))"
      by (metis prod.exhaust)
    have n2: "node_inv n2 \<and> coalescer n2 = c'"
    proof (cases "DatabaseLoader_load db key d")
      case (Pair res d')
      show ?thesis
      proof (cases res)
        case (Inl e)
        with Pair ld inv1 show ?thesis by (auto simp: load_from_source_def n1_def)
      next
        case (Inr v)
        show ?thesis
        proof (cases v)
          case None
          with Pair Inr ld inv1 show ?thesis by (auto simp: load_from_source_def n1_def)
        next
          case (Some val)
          obtain r3 n3 where p: "put_internal key val n1 = (r3, n3)" by fastforce
          from put_internal_inv[OF inv1 key p] Pair Inr Some ld p show ?thesis
            by (auto simp: load_from_source_def n1_def)
        qed
      qed
    qed
    define n3 where "n3 = n2\<lparr>coalescer := do_finally key (length (event_flags (coalescer n)))
       (do_store key out (coalescer n2))\<rparr>"
    have "RobustCache_get db key (n, d) = Some (out, (n3, d2))"
      using False Some enter ld by (simp add: RobustCache_get_def get_lookup_def n1_def n3_def)
    moreover have "node_inv n3" using n2 by (simp add: node_inv_def n3_def)
    moreover have "idle n3" using n2 i
      by (cases out) (auto simp: idle_def n3_def do_finally_def do_store_def c'_def)
    ultimately show ?thesis by blast
  qed
qed

lemma node_run_inv:
  assumes "node_inv n" "idle n" "\<forall>c \<in> set calls. call_key c \<noteq> []"
  shows "\<exists>n' d'. node_run db calls (n, d) = Some (n', d') \<and> node_inv n' \<and> idle n'"
  using assms
proof (induction calls arbitrary: n d)
  case Nil
  then show ?case by simp
next
  case (Cons c calls)
  have "\<exists>n1 d1. node_apply db c (n, d) = Some (n1, d1) \<and> node_inv n1 \<and> idle n1"
  proof (cases c)
    case (Get key)
    with Cons.prems have "key \<noteq> []" by simp
    from get_inv[OF Cons.prems(1,2) this, of db d] Get show ?thesis by auto
  next
    case (Put key val)
    with Cons.prems have "key \<noteq> []" by simp
    from put_inv[OF Cons.prems(1) this, of db val d] Cons.prems(2) Put show ?thesis
      by (cases "RobustCache_put db key val (n, d)") (auto simp: idle_def)
  qed
  then obtain n1 d1 where s: "node_apply db c (n, d) = Some (n1, d1)" "node_inv n1" "idle n1" by blast
  from Cons.IH[OF s(2,3), of d1] Cons.prems(3) s(1) show ?case by simp
qed

lemma init_inv:
  assumes "1 \<le> cap" "policy = LRU LRUPolicy_init \<or> policy = LFU LFUPolicy_init"
  shows "node_inv (RobustCache_init cap policy ld wr) \<and> idle (RobustCache_init cap policy ld wr)"
  using assms LFU_init_inv
  by (auto simp: node_inv_def idle_def RobustCache_init_def RequestCoalescer_init_def
      LRUPolicy_init_def LFUPolicy_init_def)

text \<open>
  For every capacity of at least 1, either policy, any loader, writer and database, and
  every sequence of \<open>get\<close> and \<open>put\<close> calls whose keys are non-empty: every call returns,
  and at the end (so after every call) storage holds at most \<open>capacity\<close> keys and the
  policy tracks exactly the keys of storage.
\<close>

theorem node_invariants_with_nonempty_keys:
  assumes "1 \<le> cap" "policy = LRU LRUPolicy_init \<or> policy = LFU LFUPolicy_init"
    and "\<forall>c \<in> set calls. call_key c \<noteq> []"
  shows "\<exists>n d'. node_run db calls (RobustCache_init cap policy ld wr, d) = Some (n, d')
     \<and> int (card (dom (storage n))) \<le> capacity n
     \<and> policy_keys (eviction n) = dom (storage n)"
proof -
  from init_inv[OF assms(1,2)] have "node_inv (RobustCache_init cap policy ld wr)"
    "idle (RobustCache_init cap policy ld wr)" by auto
  from node_run_inv[OF this assms(3), of db d] show ?thesis by (auto simp: node_inv_def)
qed

section \<open>A thread that runs alone\<close>

text \<open>
  The steps of a thread compose to \<open>get\<close>: whenever \<open>get\<close> returns for an uninterrupted
  caller, a single thread scheduled alone takes at most four steps to the same outcome and
  the same state.
\<close>

lemma get_alone:
  assumes "RobustCache_get db key (n, d) = Some (outcome, nd')"
  shows "\<exists>k \<le> 4. sys_run db (replicate k 0) ([(key, Start)], n, d) = Some ([(key, Finished outcome)], nd')"
proof (cases "get_lookup key n")
  case (Pair hit n1)
  show ?thesis
  proof (cases hit)
    case (Some out)
    with Pair assms have "sys_run db (replicate 1 0) ([(key, Start)], n, d) = Some ([(key, Finished outcome)], nd')"
      by (auto simp: RobustCache_get_def sys_step_def)
    then show ?thesis by (intro exI[of _ 1]) simp
  next
    case None
    show ?thesis
    proof (cases "loader n1 = None")
      case True
      with None Pair assms have "sys_run db (replicate 1 0) ([(key, Start)], n, d) = Some ([(key, Finished outcome)], nd')"
        by (auto simp: RobustCache_get_def sys_step_def)
      then show ?thesis by (intro exI[of _ 1]) simp
    next
      case False
      obtain wait event c' where enter: "do_enter key (coalescer n1) = (wait, event, c')"
        by (metis prod.exhaust)
      show ?thesis
      proof (cases wait)
        case True
        with False None Pair assms enter
        have "sys_run db (replicate 3 0) ([(key, Start)], n, d) = Some ([(key, Finished outcome)], nd')"
          by (auto simp: RobustCache_get_def sys_step_def numeral_3_eq_3 split: option.splits)
        then show ?thesis by (intro exI[of _ 3]) simp
      next
        case no_wait: False
        obtain out n2 d2 where ld: "load_from_source db key (n1\<lparr>coalescer := c'\<rparr>, d) = (out, (n2, d2))"
          by (metis prod.exhaust)
        with no_wait False None Pair assms enter
        have "sys_run db (replicate 4 0) ([(key, Start)], n, d) = Some ([(key, Finished outcome)], nd')"
          by (auto simp: RobustCache_get_def sys_step_def numeral_eq_Suc split: option.splits)
        then show ?thesis by (intro exI[of _ 4]) simp
      qed
    qed
  qed
qed

section \<open>The coalescer\<close>

text \<open>
  C7 fails on the code. A first window on key \<open>x\<close> ends with its thunk raising; the
  record is removed, the error stays in \<open>errors\<close>. A later \<open>do\<close> on \<open>x\<close> finds no record
  and starts a fresh call as leader, and a second caller joins it as follower. The
  leader's thunk returns 7, which the leader stores and returns. The follower, released
  by the leader, finds the key in \<open>errors\<close> and raises the error of the first window.
\<close>

theorem follower_sees_error_of_earlier_window:
  "RequestCoalescer_do ''x'' (\<lambda>u. (Inl (Failure ''boom''), u)) (RequestCoalescer_init, ())
     = Some (Inl (Failure ''boom''), (after_failed_window, ()))
   \<and> do_enter ''x'' after_failed_window = (False, 1, second_window)
   \<and> do_enter ''x'' second_window = (True, 1, second_window)
   \<and> do_wait ''x'' 1 (do_finally ''x'' 1 (do_store ''x'' (Inr (Some 7)) second_window))
       = Some (Inl (Failure ''boom''))"
  by (simp add: RequestCoalescer_do_def after_failed_window_def second_window_def node_defs Let_def)

text \<open>
  C5 fails on the code, by the same stale error. A first \<open>get("x")\<close> runs alone and fails
  in the loader; the cache stays empty. Then two \<open>get("x")\<close> calls run concurrently: both
  miss, the first becomes the leader, the second the follower; the leader loads (the one
  call of the loader in this window) and returns the value; the follower raises the
  error of the earlier call.
\<close>

theorem concurrent_gets_receive_different_outcomes:
  "sys_run FlakyDB [0, 0, 0, 0] stale_start = Some stale_before
   \<and> sys_run FlakyDB [1, 2, 1, 2, 1, 1, 2] stale_before = Some stale_after"
proof -
  have "sys_run FlakyDB [0, 0, 0, 0] stale_start = Some stale_before"
    by (simp add: stale_start_def stale_before_def sys_defs Let_def)
  moreover have "sys_run FlakyDB [1, 2, 1, 2, 1, 1, 2] stale_before = Some stale_after"
    by (simp add: stale_before_def stale_after_def sys_defs Let_def)
  ultimately show ?thesis by simp
qed

section \<open>Two windows for two concurrent calls\<close>

text \<open>
  The coalescer only joins calls that enter \<open>do\<close> while a load is in flight. When both
  calls miss the cache before either enters, and the first completes its whole load before
  the second enters, the second finds no record and loads again: the loader is called
  twice, once in each window, and both calls return the value.
\<close>

lemma second_window_loads_again:
  "map_option (\<lambda>(threads, n, d). (map snd threads, get_calls d))
     (sys_run FlakyDB [0, 1, 0, 0, 0, 1, 1, 1] race_start)
   = Some ([Finished (Inr (Some ''v'')), Finished (Inr (Some ''v''))], 2)"
  by (simp add: race_start_def sys_defs Let_def)


section \<open>The write-back drain\<close>

lemma python_formatting_simps:
  "format_key python_formatting key = None"
  "format_error python_formatting e = None"
  "format_value python_formatting v = (if 10 ^ 4300 \<le> \<bar>v\<bar> then Some ValueError else None)"
  by (simp_all only: python_formatting_def formatting.select_convs)

lemma huge_too_long: "format_value python_formatting huge = Some ValueError"
proof -
  have "(10::int) ^ 4300 \<le> 10 ^ 5000" by (rule power_increasing) simp_all
  then have "(10::int) ^ 4300 \<le> \<bar>huge\<bar>" unfolding huge_def by (simp only: power_abs abs_numeral)
  then show ?thesis by (simp only: python_formatting_simps if_True)
qed

text \<open>
  C3 fails on the code. A new writer takes \<open>write("k", v)\<close> with \<open>v\<close> an integer of 5001
  digits, then \<open>close()\<close>. The worker takes the order and formats its log line (line 53,
  inside the \<open>try\<close> and before \<open>db.set\<close>); converting \<open>v\<close> to a string raises
  \<open>ValueError\<close>, the handler logs it, and the order is dropped without a call of
  \<open>db.set\<close>. The worker then takes the stop signal and exits, so \<open>close\<close> returns: the
  write was made before \<open>close\<close>, and the database has seen no call and is unchanged, where
  delivering the order would have changed it.
\<close>

theorem close_returns_with_write_undelivered:
  "wb_run python_formatting FlakyDB
     [Write ''k'' huge, CloseSignal, WorkerGet, WorkerPersist, WorkerGet]
     (SafeWriteBackWriter_init, empty_db)
   = Some (\<lparr>queue = [], worker = Exited\<rparr>, empty_db)
   \<and> close_join_returns \<lparr>queue = [], worker = Exited :: (string, int) worker_state\<rparr>
   \<and> writes_before_close [Write ''k'' huge, CloseSignal, WorkerGet, WorkerPersist, WorkerGet]
       = [(''k'', huge)]
   \<and> set_log empty_db = []
   \<and> deliver FlakyDB [(''k'', huge)] empty_db \<noteq> empty_db"
  by (simp add: SafeWriteBackWriter_init_def SafeWriteBack_write_def close_put_signal_def
      flusher_get_def flusher_persist_def flusher_handler_def huge_too_long
      python_formatting_simps(1,2) close_join_returns_def empty_db_def FlakyDB_def)

text \<open>
  The other ways out of the \<open>try\<close>: an exception that \<open>except Exception\<close> does not catch
  ends the worker thread. Here \<open>set\<close> raises one for the first of two orders; the join
  returns although no stop signal was sent, and the second order is still on the queue.
\<close>

lemma join_returns_after_crash:
  "wb_run string_formatting ExitingDB
     [Write ''a'' ''1'', Write ''b'' ''2'', WorkerGet, WorkerPersist]
     (SafeWriteBackWriter_init, ())
   = Some (\<lparr>queue = [Order ''b'' ''2''], worker = Crashed SystemExit\<rparr>, ())
   \<and> close_join_returns \<lparr>queue = [Order ''b'' ''2''], worker = Crashed SystemExit\<rparr>"
  by (simp add: SafeWriteBackWriter_init_def SafeWriteBack_write_def flusher_get_def
      flusher_persist_def flusher_handler_def close_join_returns_def string_formatting_def
      ExitingDB_def)

section \<open>The drain when logging succeeds\<close>

lemma wb_run_snoc:
  "wb_run fmt db (as @ [a]) s =
     (case wb_run fmt db as s of None \<Rightarrow> None | Some s' \<Rightarrow> wb_step fmt db a s')"
  by (induction as arbitrary: s) (auto split: option.splits)

lemma wb_run_append:
  "wb_run fmt db (as @ bs) s =
     (case wb_run fmt db as s of None \<Rightarrow> None | Some s' \<Rightarrow> wb_run fmt db bs s')"
  by (induction as arbitrary: s) (auto split: option.splits)

lemma enqueued_snoc: "enqueued (as @ [a]) = enqueued as @ enqueued [a]"
  by (induction as rule: enqueued.induct) auto

lemma deliver_snoc: "deliver db (kvs @ [(k, v)]) d = snd (db_set db k v (deliver db kvs d))"
  by (induction kvs arbitrary: d) auto

lemma flusher_handler_succeeds:
  "formatting_succeeds fmt \<Longrightarrow> is_Exception e \<Longrightarrow> flusher_handler fmt key e = Idle"
  by (simp add: flusher_handler_def formatting_succeeds_def)

lemma flusher_persist_succeeds:
  assumes "formatting_succeeds fmt" "set_raises_Exceptions db" "worker w = Holding key val"
  shows "flusher_persist fmt db (w, d) = Some (w\<lparr>worker := Idle\<rparr>, snd (db_set db key val d))"
proof (cases "db_set db key val d")
  case (Pair r d')
  show ?thesis
  proof (cases r)
    case (Inl e)
    with Pair assms(2) have "is_Exception e" unfolding set_raises_Exceptions_def by blast
    with Pair Inl assms(1,3) show ?thesis
      by (simp add: flusher_persist_def formatting_succeeds_def flusher_handler_succeeds)
  next
    case (Inr u)
    with Pair assms(1,3) show ?thesis by (simp add: flusher_persist_def formatting_succeeds_def)
  qed
qed

text \<open>
  The invariant of a run, as long as formatting never raises and \<open>set\<close> raises only
  instances of \<open>Exception\<close>: the worker is alive; what was put on the queue is what has
  been handed to the database, then what is pending; and the database is the initial one
  after those calls. Every step keeps it.
\<close>

lemma wb_step_inv:
  assumes fmt: "formatting_succeeds fmt" and db: "set_raises_Exceptions db"
    and step: "wb_step fmt db a (w, d) = Some (w', d')"
    and al: "alive w"
    and items: "items = orders sent @ pending w"
    and d: "d = deliver db sent d0"
  shows "\<exists>sent'. alive w' \<and> items @ enqueued [a] = orders sent' @ pending w'
     \<and> d' = deliver db sent' d0"
proof (cases a)
  case (Write key val)
  with step al have "pending w' = pending w @ [Order key val]" "d' = d" "alive w'"
    by (auto simp: SafeWriteBack_write_def pending_def alive_def split: worker_state.splits)
  with items d Write show ?thesis by auto
next
  case CloseSignal
  with step al have "pending w' = pending w @ [STOP_SIGNAL]" "d' = d" "alive w'"
    by (auto simp: close_put_signal_def pending_def alive_def split: worker_state.splits)
  with items d CloseSignal show ?thesis by auto
next
  case WorkerGet
  with step have "pending w' = pending w" "d' = d" "alive w'"
    by (auto simp: flusher_get_def pending_def alive_def
        split: worker_state.splits list.splits queue_item.splits option.splits)
  with items d WorkerGet show ?thesis by auto
next
  case WorkerPersist
  with step obtain key val where h: "worker w = Holding key val"
    by (auto simp: flusher_persist_def split: worker_state.splits)
  from flusher_persist_succeeds[OF fmt db h, of d] step WorkerPersist
  have w': "w' = w\<lparr>worker := Idle\<rparr>" and d': "d' = snd (db_set db key val d)" by auto
  have "items @ enqueued [a] = orders (sent @ [(key, val)]) @ pending w'"
    using items h w' WorkerPersist by (simp add: pending_def orders_def)
  moreover have "d' = deliver db (sent @ [(key, val)]) d0"
    using d d' by (simp add: deliver_snoc)
  moreover have "alive w'" using w' by (simp add: alive_def)
  ultimately show ?thesis by blast
qed

lemma wb_run_inv:
  assumes fmt: "formatting_succeeds fmt" and db: "set_raises_Exceptions db"
  shows "wb_run fmt db as (SafeWriteBackWriter_init, d0) = Some (w, d) \<Longrightarrow>
   \<exists>sent. alive w \<and> enqueued as = orders sent @ pending w \<and> d = deliver db sent d0"
proof (induction as arbitrary: w d rule: rev_induct)
  case Nil
  then show ?case
    by (auto simp: SafeWriteBackWriter_init_def pending_def orders_def alive_def intro!: exI[of _ "[]"])
next
  case (snoc a as)
  from snoc.prems obtain w1 d1
    where run: "wb_run fmt db as (SafeWriteBackWriter_init, d0) = Some (w1, d1)"
      and step: "wb_step fmt db a (w1, d1) = Some (w, d)"
    by (auto simp: wb_run_snoc split: option.splits)
  from snoc.IH[OF run] obtain sent
    where "alive w1" "enqueued as = orders sent @ pending w1" "d1 = deliver db sent d0"
    by blast
  from wb_step_inv[OF fmt db step this] show ?case by (simp add: enqueued_snoc)
qed

lemma writes_before_close_enqueued:
  "enqueued as = orders sent @ STOP_SIGNAL # rest \<Longrightarrow> writes_before_close as = sent"
proof (induction as arbitrary: sent rule: writes_before_close.induct)
  case 1
  then show ?case by (simp add: orders_def)
next
  case (2 key val as)
  then show ?case by (cases sent) (auto simp: orders_def)
next
  case (3 as)
  then show ?case by (cases sent) (auto simp: orders_def)
next
  case (4 as)
  then show ?case by simp
next
  case (5 as)
  then show ?case by simp
qed

text \<open>
  With formatting that never raises and a database whose \<open>set\<close> raises only instances
  of \<open>Exception\<close>, the drain holds for every interleaving of \<open>write\<close> calls, \<open>close\<close>
  calls and worker steps on a new writer: once \<open>close\<close> has returned, the database is the
  initial database after \<open>set\<close> was called for exactly the orders that were put on the
  queue before the first stop signal, one call per order, in the order of the \<open>write\<close>
  calls. Every \<open>write\<close> that returned before \<open>close\<close> was invoked is among them.
\<close>

theorem drain_when_logging_succeeds:
  assumes "formatting_succeeds fmt" and "set_raises_Exceptions db"
    and "wb_run fmt db as (SafeWriteBackWriter_init, d0) = Some (w, d)"
    and "close_join_returns w"
  shows "d = deliver db (writes_before_close as) d0"
proof -
  from wb_run_inv[OF assms(1,2,3)] obtain sent
    where al: "alive w" and e: "enqueued as = orders sent @ pending w"
      and d: "d = deliver db sent d0"
    by blast
  from al assms(4) have "worker w = Exited"
    by (cases "worker w") (auto simp: close_join_returns_def alive_def)
  with e have "enqueued as = orders sent @ STOP_SIGNAL # queue w"
    by (simp add: pending_def)
  then have "writes_before_close as = sent" by (rule writes_before_close_enqueued)
  with d show ?thesis by simp
qed

text \<open>
  An instance with string keys and values: two writes, the second made while the worker
  holds the first, then \<open>close\<close>; the log of the database shows both orders in call order.
\<close>

lemma drain_when_logging_succeeds_instance:
  "formatting_succeeds string_formatting
   \<and> set_raises_Exceptions (FlakyDB :: (string, string, (string, string) FlakyDB_state) db_adapter)
   \<and> wb_run string_formatting FlakyDB
       [Write ''a'' ''1'', WorkerGet, Write ''b'' ''2'', CloseSignal, WorkerPersist, WorkerGet,
        WorkerPersist, WorkerGet]
       (SafeWriteBackWriter_init,
        \<lparr>data = Map.empty, get_faults = 0, set_faults = 0, set_log = [], get_calls = 0\<rparr>)
     = Some (\<lparr>queue = [], worker = Exited\<rparr>,
             \<lparr>data = [''a'' \<mapsto> ''1'', ''b'' \<mapsto> ''2''], get_faults = 0, set_faults = 0,
              set_log = [(''a'', ''1''), (''b'', ''2'')], get_calls = 0\<rparr>)"
proof -
  have f: "formatting_succeeds string_formatting"
    by (simp add: formatting_succeeds_def string_formatting_def)
  have s: "set_raises_Exceptions (FlakyDB :: (string, string, (string, string) FlakyDB_state) db_adapter)"
    by (auto simp: set_raises_Exceptions_def FlakyDB_def split: if_splits)
  have run: "wb_run string_formatting FlakyDB
       [Write ''a'' ''1'', WorkerGet, Write ''b'' ''2'', CloseSignal, WorkerPersist, WorkerGet,
        WorkerPersist, WorkerGet]
       (SafeWriteBackWriter_init,
        \<lparr>data = Map.empty, get_faults = 0, set_faults = 0, set_log = [], get_calls = 0\<rparr>)
     = Some (\<lparr>queue = [], worker = Exited\<rparr>,
             \<lparr>data = [''a'' \<mapsto> ''1'', ''b'' \<mapsto> ''2''], get_faults = 0, set_faults = 0,
              set_log = [(''a'', ''1''), (''b'', ''2'')], get_calls = 0\<rparr>)"
    by (simp add: SafeWriteBackWriter_init_def SafeWriteBack_write_def close_put_signal_def
        flusher_get_def flusher_persist_def flusher_handler_def string_formatting_def FlakyDB_def)
  from f s run show ?thesis by simp
qed

section \<open>The worker thread ends\<close>

text \<open>
  \<open>close\<close> does return when the worker gets to run: from any state with a running worker
  and the stop signal on the queue, worker steps alone lead to a state in which the join
  returns.
\<close>

lemma persist_leaves_holding:
  assumes "worker w = Holding key val"
  shows "\<exists>w' d'. wb_run fmt db [WorkerPersist] (w, d) = Some (w', d') \<and> queue w' = queue w
     \<and> (worker w' = Idle \<or> (\<exists>e. worker w' = Crashed e))"
  using assms
  by (auto simp: flusher_persist_def flusher_handler_def split: option.splits sum.splits prod.splits)

lemma idle_worker_drains:
  assumes "worker w = Idle" "STOP_SIGNAL \<in> set (queue w)"
  shows "\<exists>as w' d'. set as \<subseteq> {WorkerGet, WorkerPersist}
     \<and> wb_run fmt db as (w, d) = Some (w', d') \<and> close_join_returns w'"
  using assms
proof (induction "queue w" arbitrary: w d)
  case Nil
  then show ?case by simp
next
  case (Cons item rest)
  from Cons(2) have q: "queue w = item # rest" by simp
  show ?case
  proof (cases item)
    case STOP_SIGNAL
    with q Cons(3)
    have "wb_run fmt db [WorkerGet] (w, d) = Some (w\<lparr>queue := rest, worker := Exited\<rparr>, d)"
      by (simp add: flusher_get_def)
    then show ?thesis
      by (intro exI[of _ "[WorkerGet]"] exI conjI) (auto simp: close_join_returns_def)
  next
    case (Order key val)
    define w1 where "w1 = w\<lparr>queue := rest, worker := Holding key val\<rparr>"
    from Order q Cons(3) have one: "wb_run fmt db [WorkerGet] (w, d) = Some (w1, d)"
      by (simp add: flusher_get_def w1_def)
    have "worker w1 = Holding key val" by (simp add: w1_def)
    from persist_leaves_holding[OF this, of fmt db d] obtain w2 d2
      where two: "wb_run fmt db [WorkerPersist] (w1, d) = Some (w2, d2)" and q2: "queue w2 = rest"
        and st: "worker w2 = Idle \<or> (\<exists>e. worker w2 = Crashed e)"
      by (auto simp: w1_def)
    from one two have both: "wb_run fmt db ([WorkerGet] @ [WorkerPersist]) (w, d) = Some (w2, d2)"
      by (simp only: wb_run_append option.case)
    from st show ?thesis
    proof
      assume idle: "worker w2 = Idle"
      from Order q Cons(4) q2 have "STOP_SIGNAL \<in> set (queue w2)" by simp
      with Cons(1)[of w2 d2] q2 idle obtain as w' d'
        where rest: "set as \<subseteq> {WorkerGet, WorkerPersist}"
          "wb_run fmt db as (w2, d2) = Some (w', d')" "close_join_returns w'"
        by auto
      from both rest(2)
      have "wb_run fmt db (([WorkerGet] @ [WorkerPersist]) @ as) (w, d) = Some (w', d')"
        by (simp only: wb_run_append option.case)
      with rest(1,3) show ?thesis
        by (intro exI[of _ "([WorkerGet] @ [WorkerPersist]) @ as"] exI conjI) auto
    next
      assume "\<exists>e. worker w2 = Crashed e"
      then have "close_join_returns w2" by (auto simp: close_join_returns_def)
      with both show ?thesis
        by (intro exI[of _ "[WorkerGet] @ [WorkerPersist]"] exI conjI) auto
    qed
  qed
qed

lemma worker_drains:
  assumes "\<not> close_join_returns w" "STOP_SIGNAL \<in> set (queue w)"
  shows "\<exists>as w' d'. set as \<subseteq> {WorkerGet, WorkerPersist}
     \<and> wb_run fmt db as (w, d) = Some (w', d') \<and> close_join_returns w'"
proof (cases "worker w")
  case Idle
  from idle_worker_drains[OF Idle assms(2)] show ?thesis .
next
  case (Holding key val)
  from persist_leaves_holding[OF Holding, of fmt db d] obtain w1 d1
    where one: "wb_run fmt db [WorkerPersist] (w, d) = Some (w1, d1)" and q1: "queue w1 = queue w"
      and st: "worker w1 = Idle \<or> (\<exists>e. worker w1 = Crashed e)"
    by blast
  from st show ?thesis
  proof
    assume idle: "worker w1 = Idle"
    from assms(2) q1 have "STOP_SIGNAL \<in> set (queue w1)" by simp
    from idle_worker_drains[OF idle this, of fmt db d1] obtain as w' d'
      where rest: "set as \<subseteq> {WorkerGet, WorkerPersist}"
        "wb_run fmt db as (w1, d1) = Some (w', d')" "close_join_returns w'" by blast
    from one rest(2) have "wb_run fmt db ([WorkerPersist] @ as) (w, d) = Some (w', d')"
      by (simp only: wb_run_append option.case)
    with rest(1,3) show ?thesis
      by (intro exI[of _ "[WorkerPersist] @ as"] exI conjI) auto
  next
    assume "\<exists>e. worker w1 = Crashed e"
    then have "close_join_returns w1" by (auto simp: close_join_returns_def)
    with one show ?thesis
      by (intro exI[of _ "[WorkerPersist]"] exI conjI) auto
  qed
next
  case Exited
  with assms show ?thesis by (simp add: close_join_returns_def)
next
  case (Crashed e)
  with assms show ?thesis by (simp add: close_join_returns_def)
qed

section \<open>The writers' \<open>delete\<close>\<close>

text \<open>
  C10. \<open>delete(key)\<close> of either writer returns normally and changes nothing: the database
  is the one before the call (no call reached it), and for the write-back writer the queue
  and the worker are as before.
\<close>

theorem delete_is_noop:
  "WriteThrough_delete db key d = (Inr (), d)
   \<and> SafeWriteBack_delete db key (w, d) = (Inr (), (w, d))"
  by (simp add: WriteThrough_delete_def SafeWriteBack_delete_def)

section \<open>The hash ring\<close>

text \<open>
  On a sorted list the binary search returns the index that splits it into the elements
  at most \<open>x\<close> and the elements above \<open>x\<close>.
\<close>

declare bisect_loop.simps [simp del]

lemma bisect_loop_spec:
  assumes "sorted a" "lo \<le> hi" "hi \<le> length a"
    and "\<forall>i<lo. a ! i \<le> x" and "\<forall>i. hi \<le> i \<and> i < length a \<longrightarrow> x < a ! i"
  shows "bisect_loop a x lo hi \<le> length a
     \<and> (\<forall>i<bisect_loop a x lo hi. a ! i \<le> x)
     \<and> (\<forall>i. bisect_loop a x lo hi \<le> i \<and> i < length a \<longrightarrow> x < a ! i)"
  using assms
proof (induction a x lo hi rule: bisect_loop.induct)
  case (1 a x lo hi)
  show ?case
  proof (cases "lo < hi")
    case False
    then have "bisect_loop a x lo hi = lo" by (simp add: bisect_loop.simps[of a x lo hi])
    with False 1(4,5,6,7) show ?thesis by simp
  next
    case True
    define mid where "mid = (lo + hi) div 2"
    have mid: "lo \<le> mid" "mid < hi" using True by (auto simp: mid_def)
    show ?thesis
    proof (cases "x < a ! mid")
      case lt: True
      have eq: "bisect_loop a x lo hi = bisect_loop a x lo mid"
        using True lt by (simp add: bisect_loop.simps[of a x lo hi] mid_def Let_def)
      have "\<forall>i. mid \<le> i \<and> i < length a \<longrightarrow> x < a ! i"
      proof (intro allI impI)
        fix i assume "mid \<le> i \<and> i < length a"
        then have "a ! mid \<le> a ! i" using \<open>sorted a\<close> by (simp add: sorted_nth_mono)
        with lt show "x < a ! i" by simp
      qed
      with 1(1)[OF True mid_def lt \<open>sorted a\<close>] mid 1(5,6)
      show ?thesis unfolding eq by simp
    next
      case ge: False
      have eq: "bisect_loop a x lo hi = bisect_loop a x (mid + 1) hi"
        using True ge by (simp add: bisect_loop.simps[of a x lo hi] mid_def Let_def)
      have "\<forall>i<mid + 1. a ! i \<le> x"
      proof (intro allI impI)
        fix i assume "i < mid + 1"
        then have "a ! i \<le> a ! mid" using \<open>sorted a\<close> mid 1(5) by (simp add: sorted_nth_mono)
        with ge show "a ! i \<le> x" by simp
      qed
      with 1(2)[OF True mid_def ge \<open>sorted a\<close>] mid 1(5,7)
      show ?thesis unfolding eq by simp
    qed
  qed
qed

lemma bisect_spec:
  assumes "sorted a"
  shows "bisect a x \<le> length a \<and> (\<forall>i<bisect a x. a ! i \<le> x)
     \<and> (\<forall>i. bisect a x \<le> i \<and> i < length a \<longrightarrow> x < a ! i)"
  unfolding bisect_def using bisect_loop_spec[OF assms, of 0 "length a" x] by simp


text \<open>
  The constructor and \<open>add_node\<close> keep a ring consistent, whatever the labels and the
  digest. \<open>remove_node\<close> keeps it consistent when no position occurs twice in
  \<open>sorted_keys\<close>; it removes one occurrence per dictionary entry, so after a label was
  added twice its positions stay in \<open>sorted_keys\<close> without an entry in \<open>ring\<close>.
\<close>

lemma insort_bisect_sorted:
  assumes "sorted a"
  shows "sorted (insort_bisect a x) \<and> set (insort_bisect a x) = insert x (set a)"
proof -
  define i where "i = bisect a x"
  from bisect_spec[OF assms, of x] have le: "i \<le> length a"
    and low: "\<forall>j<i. a ! j \<le> x" and high: "\<forall>j. i \<le> j \<and> j < length a \<longrightarrow> x < a ! j"
    by (auto simp: i_def)
  have t: "\<forall>u \<in> set (take i a). u \<le> x"
    using low le by (auto simp: in_set_conv_nth)
  have d: "\<forall>v \<in> set (drop i a). x < v"
  proof
    fix v assume "v \<in> set (drop i a)"
    then obtain j where "j < length a - i" "v = a ! (i + j)" by (auto simp: in_set_conv_nth)
    with high show "x < v" by simp
  qed
  have "sorted (take i a)" "sorted (drop i a)" using assms by (simp_all add: sorted_wrt_take sorted_wrt_drop)
  with t d have "sorted (take i a @ x # drop i a)" by (fastforce simp: sorted_append)
  moreover have "set (take i a @ x # drop i a) = insert x (set a)"
  proof -
    have "set a = set (take i a) \<union> set (drop i a)"
      using set_append[of "take i a" "drop i a"] by simp
    then show ?thesis by auto
  qed
  ultimately show ?thesis by (simp add: insort_bisect_def i_def[symmetric])
qed

lemma add_vnode_consistent: "ring_consistent r \<Longrightarrow> ring_consistent (add_vnode H node r i)"
  using insort_bisect_sorted[of "sorted_keys r"]
  by (auto simp: ring_consistent_def add_vnode_def Let_def AList.dom_update)

lemma add_vnode_replicas: "replicas (add_vnode H node r i) = replicas r"
  by (simp add: add_vnode_def Let_def)

lemma foldl_add_vnode_consistent:
  "ring_consistent r \<Longrightarrow> ring_consistent (foldl (add_vnode H node) r is)"
  by (induction "is" arbitrary: r) (simp_all add: add_vnode_consistent)

lemma add_node_consistent: "ring_consistent r \<Longrightarrow> ring_consistent (add_node H node r)"
  by (simp add: add_node_def foldl_add_vnode_consistent)

lemma foldl_add_node_consistent:
  "ring_consistent r \<Longrightarrow> ring_consistent (foldl (\<lambda>r node. add_node H node r) r nodes)"
  by (induction nodes arbitrary: r) (simp_all add: add_node_consistent)

lemma init_consistent: "ring_consistent (ConsistentHashing_init H nodes R)"
  unfolding ConsistentHashing_init_def
  by (rule foldl_add_node_consistent) (simp add: ring_consistent_def)

lemma remove_keys_consistent:
  assumes "ring_consistent r" "ring_distinct r" "distinct keys" "set keys \<subseteq> fst ` set (ring r)"
  shows "fst (remove_keys keys r) = Inr () \<and> ring_consistent (snd (remove_keys keys r))
     \<and> ring_distinct (snd (remove_keys keys r))"
  using assms
proof (induction keys arbitrary: r)
  case Nil
  then show ?case by simp
next
  case (Cons key keys)
  define r2 where "r2 = r\<lparr>ring := AList.delete key (ring r), sorted_keys := remove1 key (sorted_keys r)\<rparr>"
  from Cons.prems have mem: "key \<in> fst ` set (ring r)" "key \<in> set (sorted_keys r)"
    by (auto simp: ring_consistent_def)
  then have step: "remove_keys (key # keys) r = remove_keys keys r2"
    by (simp add: r2_def Let_def)
  have dom: "fst ` set (AList.delete key (ring r)) = fst ` set (ring r) - {key}"
    using AList.delete_keys[of key "ring r"] by (metis list.set_map set_removeAll)
  have "ring_consistent r2" using Cons.prems(1,2) dom
    by (auto simp: ring_consistent_def ring_distinct_def r2_def sorted_remove1)
  moreover have "ring_distinct r2" using Cons.prems(2)
    by (auto simp: ring_distinct_def r2_def AList.distinct_delete)
  moreover have "distinct keys" using Cons.prems(3) by simp
  moreover have "set keys \<subseteq> fst ` set (ring r2)" using Cons.prems(3,4) dom by (auto simp: r2_def)
  ultimately show ?case unfolding step by (rule Cons.IH)
qed

lemma remove_node_consistent:
  assumes "ring_consistent r" "ring_distinct r"
  shows "fst (remove_node node r) = Inr () \<and> ring_consistent (snd (remove_node node r))
     \<and> ring_distinct (snd (remove_node node r))"
  unfolding remove_node_def
proof (rule remove_keys_consistent[OF assms])
  show "distinct (map fst (filter (\<lambda>(key, n). n = node) (ring r)))"
    using assms(2) by (simp add: ring_distinct_def distinct_map_filter)
  show "set (map fst (filter (\<lambda>(key, n). n = node) (ring r))) \<subseteq> fst ` set (ring r)"
    by auto
qed




end
